theory Spec2Isabelle
  imports
    Main
    "HOL-Library.Sublist"
    "HOL-Library.Multiset"
    "HOL-Library.Char_ord"
    "HOL-Library.List_Lexorder"
    "HOL-Library.Product_Lexorder"
begin

section \<open>go-recordtrie: a read-only key-value store on top of a trie\<close>

text \<open>
  A shallow embedding of \<^verbatim>\<open>recordtrie.go\<close>. A Go \<^verbatim>\<open>string\<close> is a sequence of bytes;
  it is modelled as a \<^typ>\<open>string\<close>, a list of 8-bit characters. With the orders of
  \<^verbatim>\<open>Char_ord\<close> and \<^verbatim>\<open>List_Lexorder\<close>, \<open>\<le>\<close> on \<^typ>\<open>string\<close> is the byte-wise
  lexicographic order.
\<close>

subsection \<open>Data\<close>

text \<open>\<^verbatim>\<open>type Record struct { Key string; Value string }\<close>\<close>

record Record =
  Key :: string
  Value :: string

text \<open>
  \<^verbatim>\<open>type RecordTrie struct { t marisa.Trie }\<close>. The field \<^verbatim>\<open>t\<close> is called \<open>trie\<close> here;
  \<open>'t\<close> is the type of the trie handle of the wrapped library.
\<close>

record 't RecordTrie =
  trie :: 't

text \<open>\<^verbatim>\<open>const KV_SEPARATOR = "\xFF"\<close>\<close>

definition KV_SEPARATOR :: string where
  "KV_SEPARATOR = [CHR 0xFF]"

text \<open>
  The outcome of a Go call: it returns a value, or it panics with a value, of which only
  the rendering by \<^verbatim>\<open>%v\<close> is kept. A Go \<^verbatim>\<open>error\<close> is kept as its message; \<^verbatim>\<open>nil\<close> is
  \<open>None\<close>.
\<close>

datatype 'a go_result = Returns 'a | Panics string

type_synonym error = string

subsection \<open>The trie library\<close>

text \<open>
  \<^verbatim>\<open>github.com/1player/go-marisa\<close> is an imported library, not part of this repository.
  Its operations are parameters of the model, collected in a record:
  \<^item> \<open>NewTrie\<close>: \<^verbatim>\<open>marisa.NewTrie()\<close>, a fresh handle;
  \<^item> \<open>Trie_Build t ks\<close>: \<^verbatim>\<open>t.Build(ks)\<close>, where the keyset \<open>ks\<close> is the list of the strings
    pushed by \<^verbatim>\<open>PushBackString\<close>, in the order of the pushes; it yields the built trie or
    panics;
  \<^item> \<open>Trie_PredictiveSearch t q\<close>: the keys that a fresh agent with query \<open>q\<close> holds after
    each successive call of \<^verbatim>\<open>t.PredictiveSearch(a)\<close> that returns true, in the order
    of the calls (the enumeration is finite);
  \<^item> \<open>Trie_Save t path fs\<close>: \<^verbatim>\<open>t.Save(path)\<close> on the file system \<open>fs\<close>, yields the new file
    system or panics;
  \<^item> \<open>Trie_Mmap t path fs\<close>: \<^verbatim>\<open>t.Mmap(path)\<close>, yields the mapped trie or panics.
\<close>

record ('t, 'fs) engine =
  NewTrie :: 't
  Trie_Build :: "'t \<Rightarrow> string list \<Rightarrow> 't go_result"
  Trie_PredictiveSearch :: "'t \<Rightarrow> string \<Rightarrow> string list"
  Trie_Save :: "'t \<Rightarrow> string \<Rightarrow> 'fs \<Rightarrow> 'fs go_result"
  Trie_Mmap :: "'t \<Rightarrow> string \<Rightarrow> 'fs \<Rightarrow> 't go_result"

subsection \<open>The key codec\<close>

text \<open>\<^verbatim>\<open>fmt.Sprintf("%s%s%s", key, KV_SEPARATOR, value)\<close>\<close>

definition buildTrieKey :: "string \<Rightarrow> string \<Rightarrow> string" where
  "buildTrieKey key value = key @ KV_SEPARATOR @ value"

text \<open>
  \<^verbatim>\<open>strings.Index(s, sep)\<close>: the position of the first occurrence of \<open>sep\<close> in \<open>s\<close>,
  \<open>None\<close> for Go's \<open>-1\<close>.
\<close>

fun Index :: "string \<Rightarrow> string \<Rightarrow> nat option" where
  "Index [] sep = (if sep = [] then Some 0 else None)"
| "Index (c # cs) sep =
     (if prefix sep (c # cs) then Some 0 else map_option Suc (Index cs sep))"

text \<open>
  \<^verbatim>\<open>strings.SplitN(s, sep, n)\<close> for \<open>n \<ge> 0\<close> and a non-empty separator: at most \<open>n\<close>
  pieces, the last one being the unsplit remainder.
\<close>

fun SplitN :: "string \<Rightarrow> string \<Rightarrow> nat \<Rightarrow> string list" where
  "SplitN s sep 0 = []"
| "SplitN s sep (Suc 0) = [s]"
| "SplitN s sep (Suc (Suc n)) =
     (case Index s sep of
        None \<Rightarrow> [s]
      | Some m \<Rightarrow> take m s # SplitN (drop (m + length sep) s) sep (Suc n))"

definition splitTrieKey :: "string \<Rightarrow> string \<times> string" where
  "splitTrieKey trieKey =
     (let pieces = SplitN trieKey KV_SEPARATOR 2 in
      if length pieces < 2 then (pieces ! 0, [])
      else (pieces ! 0, pieces ! 1))"

subsection \<open>Construction\<close>

text \<open>
  \<^verbatim>\<open>build\<close>: the loop pushes one trie key per record onto a new keyset, then the trie is
  built from the keyset. A panic of \<^verbatim>\<open>Build\<close> is not recovered.
\<close>

definition build :: "('t, 'fs) engine \<Rightarrow> 't RecordTrie \<Rightarrow> Record list \<Rightarrow> 't RecordTrie go_result" where
  "build E r records =
     (let ks = foldl (\<lambda>ks record. ks @ [buildTrieKey (Key record) (Value record)]) [] records in
      case Trie_Build E (trie r) ks of
        Returns t' \<Rightarrow> Returns (r\<lparr>trie := t'\<rparr>)
      | Panics p \<Rightarrow> Panics p)"

text \<open>\<^verbatim>\<open>New\<close> has no deferred function: it returns the store, or the panic goes on.\<close>

definition New :: "('t, 'fs) engine \<Rightarrow> Record list \<Rightarrow> 't RecordTrie go_result" where
  "New E records =
     (let r = \<lparr>trie = NewTrie E\<rparr> in
      case build E r records of
        Returns r' \<Rightarrow> Returns r'
      | Panics p \<Rightarrow> Panics p)"

text \<open>
  The deferred function of \<^verbatim>\<open>NewFromFile\<close> and \<^verbatim>\<open>Save\<close>:
  \<^verbatim>\<open>if r := recover(); r != nil { err = fmt.Errorf("%v", r) }\<close>.
  \<open>named\<close> gives the results to return when the body has panicked, from the error.
\<close>

definition recover_err :: "(error \<Rightarrow> 'a) \<Rightarrow> 'a go_result \<Rightarrow> 'a go_result" where
  "recover_err named body =
     (case body of Returns x \<Rightarrow> Returns x | Panics p \<Rightarrow> Returns (named p))"

text \<open>
  \<^verbatim>\<open>NewFromFile\<close> returns the pair \<open>(r, err)\<close>. The result \<open>r\<close> is assigned before
  \<^verbatim>\<open>Mmap\<close> is called, so it is returned also when \<^verbatim>\<open>Mmap\<close> panics; its trie is then taken
  to be the fresh one.
\<close>

definition NewFromFile :: "('t, 'fs) engine \<Rightarrow> string \<Rightarrow> 'fs \<Rightarrow> ('t RecordTrie \<times> error option) go_result" where
  "NewFromFile E path fs =
     (let r = \<lparr>trie = NewTrie E\<rparr> in
      recover_err (\<lambda>e. (r, Some e))
        (case Trie_Mmap E (trie r) path fs of
           Returns t' \<Rightarrow> Returns (r\<lparr>trie := t'\<rparr>, None)
         | Panics p \<Rightarrow> Panics p))"

text \<open>
  \<^verbatim>\<open>Save\<close> returns \<open>err\<close>; the model returns the file system as well, taken to be
  unchanged when the library has panicked.
\<close>

definition Save :: "('t, 'fs) engine \<Rightarrow> 't RecordTrie \<Rightarrow> string \<Rightarrow> 'fs \<Rightarrow> (error option \<times> 'fs) go_result" where
  "Save E r path fs =
     recover_err (\<lambda>e. (Some e, fs))
       (case Trie_Save E (trie r) path fs of
          Returns fs' \<Rightarrow> Returns (None, fs')
        | Panics p \<Rightarrow> Panics p)"

subsection \<open>Queries\<close>

text \<open>
  \<^verbatim>\<open>iter\<close>: the loop over the matches of the predictive search. The closure \<open>iterFunc\<close>
  updates the variable it captures, of type \<open>'s\<close>, and says whether to go on.
\<close>

fun iter_loop :: "string list \<Rightarrow> (string \<Rightarrow> string \<Rightarrow> 's \<Rightarrow> bool \<times> 's) \<Rightarrow> 's \<Rightarrow> 's" where
  "iter_loop [] iterFunc s = s"
| "iter_loop (trieKey # rest) iterFunc s =
     (case splitTrieKey trieKey of (k, v) \<Rightarrow>
        (case iterFunc k v s of (continue, s') \<Rightarrow>
           if \<not> continue then s' else iter_loop rest iterFunc s'))"

definition iter :: "('t, 'fs) engine \<Rightarrow> 't RecordTrie \<Rightarrow> string \<Rightarrow> (string \<Rightarrow> string \<Rightarrow> 's \<Rightarrow> bool \<times> 's) \<Rightarrow> 's \<Rightarrow> 's" where
  "iter E r query iterFunc s = iter_loop (Trie_PredictiveSearch E (trie r) query) iterFunc s"

definition Exists :: "('t, 'fs) engine \<Rightarrow> 't RecordTrie \<Rightarrow> string \<Rightarrow> bool" where
  "Exists E r key = iter E r (buildTrieKey key []) (\<lambda>k v exists. (False, True)) False"

definition Find :: "('t, 'fs) engine \<Rightarrow> 't RecordTrie \<Rightarrow> string \<Rightarrow> string list" where
  "Find E r key = iter E r (buildTrieKey key []) (\<lambda>k v values. (True, values @ [v])) []"

definition KeysStartingWith :: "('t, 'fs) engine \<Rightarrow> 't RecordTrie \<Rightarrow> string \<Rightarrow> string list" where
  "KeysStartingWith E r keyPrefix = iter E r keyPrefix (\<lambda>k v keys. (True, keys @ [k])) []"

definition Records :: "('t, 'fs) engine \<Rightarrow> 't RecordTrie \<Rightarrow> Record list" where
  "Records E r = iter E r [] (\<lambda>k v records. (True, records @ [\<lparr>Key = k, Value = v\<rparr>])) []"

subsection \<open>What the store needs from the trie library\<close>

text \<open>
  The library is outside the repository, so what it does is a hypothesis of the theorems
  below, in the words of the interface the specification gives for the trie engine.

  \<open>stores E tr ks\<close>: the trie \<open>tr\<close> holds the keys \<open>ks\<close>. A predictive search yields
  exactly the keys of \<open>ks\<close> that start with the query, and yields no key twice when no
  key was pushed twice. Whether a key pushed twice is yielded once or twice is left to
  the library, and so is the order.
\<close>

definition stores :: "('t, 'fs) engine \<Rightarrow> 't \<Rightarrow> string list \<Rightarrow> bool" where
  "stores E tr ks \<longleftrightarrow>
     (\<forall>q. set (Trie_PredictiveSearch E tr q) = {k \<in> set ks. prefix q k} \<and>
          (distinct ks \<longrightarrow> distinct (Trie_PredictiveSearch E tr q)))"

text \<open>\<open>builds E\<close>: a trie that \<^verbatim>\<open>Build\<close> returns holds the keys of the keyset.\<close>

definition builds :: "('t, 'fs) engine \<Rightarrow> bool" where
  "builds E \<longleftrightarrow> (\<forall>t ks tr. Trie_Build E t ks = Returns tr \<longrightarrow> stores E tr ks)"

text \<open>\<open>ascending E tr\<close>: every predictive search on \<open>tr\<close> yields its keys in ascending
  byte-wise lexicographic order.\<close>

definition ascending :: "('t, 'fs) engine \<Rightarrow> 't \<Rightarrow> bool" where
  "ascending E tr \<longleftrightarrow> (\<forall>q. sorted (Trie_PredictiveSearch E tr q))"

text \<open>
  \<open>at_most_pushed E tr ks\<close>: no predictive search on \<open>tr\<close> yields a key more often
  than the key occurs in \<open>ks\<close>. It holds when the library keeps a repeated key once and
  when it keeps every repetition.
\<close>

definition at_most_pushed :: "('t, 'fs) engine \<Rightarrow> 't \<Rightarrow> string list \<Rightarrow> bool" where
  "at_most_pushed E tr ks \<longleftrightarrow>
     (\<forall>q x. count (mset (Trie_PredictiveSearch E tr q)) x \<le> count (mset ks) x)"

text \<open>
  \<open>persists E\<close>: after \<^verbatim>\<open>Save\<close> has returned, \<^verbatim>\<open>Mmap\<close> of the same path on a fresh
  handle returns a trie with the same answers to every predictive search.
\<close>

definition persists :: "('t, 'fs) engine \<Rightarrow> bool" where
  "persists E \<longleftrightarrow>
     (\<forall>tr path fs fs'. Trie_Save E tr path fs = Returns fs' \<longrightarrow>
        (\<exists>tr'. Trie_Mmap E (NewTrie E) path fs' = Returns tr' \<and>
           (\<forall>q. Trie_PredictiveSearch E tr' q = Trie_PredictiveSearch E tr q)))"

text \<open>
  Modelled from the spec: the Trie Engine of the specification's external interfaces
  (the code of the library go-marisa is not part of the repository). Bulk construction
  sorts the keys and, when
  \<open>dedup\<close> is set, drops repeated keys (the specification allows both); the prefix
  search yields the stored keys that start with the query, in ascending order; saving
  writes the content under the path and loading reads it back. A trie is the sorted list
  of its keys, a file system a map from paths to contents. The theorems below hold for
  every engine; this one instantiates them.
\<close>

definition list_engine :: "bool \<Rightarrow> (string list, string \<rightharpoonup> string list) engine" where
  "list_engine dedup =
     \<lparr>NewTrie = [],
      Trie_Build = (\<lambda>t ks. Returns (sort (if dedup then remdups ks else ks))),
      Trie_PredictiveSearch = (\<lambda>t q. filter (prefix q) t),
      Trie_Save = (\<lambda>t path fs. Returns (fs(path \<mapsto> t))),
      Trie_Mmap = (\<lambda>t path fs.
         case fs path of None \<Rightarrow> Panics ''no such file'' | Some t' \<Rightarrow> Returns t')\<rparr>"

text \<open>An engine in which every operation that can panic does, with the message \<open>msg\<close>.\<close>

definition broken_engine :: "string \<Rightarrow> (unit, unit) engine" where
  "broken_engine msg =
     \<lparr>NewTrie = (),
      Trie_Build = (\<lambda>t ks. Panics msg),
      Trie_PredictiveSearch = (\<lambda>t q. []),
      Trie_Save = (\<lambda>t path fs. Panics msg),
      Trie_Mmap = (\<lambda>t path fs. Panics msg)\<rparr>"

subsection \<open>The right-hand sides of the specification\<close>

text \<open>The invariant of a record: its key has no byte 0xFF.\<close>

definition valid_records :: "Record list \<Rightarrow> bool" where
  "valid_records R \<longleftrightarrow> (\<forall>r \<in> set R. CHR 0xFF \<notin> set (Key r))"

text \<open>The values of the records of \<open>R\<close> with key \<open>k\<close>, one for each such record.\<close>

definition values_of :: "Record list \<Rightarrow> string \<Rightarrow> string list" where
  "values_of R k = map Value (filter (\<lambda>r. Key r = k) R)"

text \<open>The keys of the records of \<open>R\<close> whose key starts with \<open>p\<close>, one for each such record.\<close>

definition keys_with_prefix :: "Record list \<Rightarrow> string \<Rightarrow> string list" where
  "keys_with_prefix R p = map Key (filter (\<lambda>r. prefix p (Key r)) R)"

text \<open>The pair of a record, ordered by key and then by value.\<close>

definition pair_of :: "Record \<Rightarrow> string \<times> string" where
  "pair_of r = (Key r, Value r)"

text \<open>The trie key of a record.\<close>

definition trieKey_of :: "Record \<Rightarrow> string" where
  "trieKey_of r = buildTrieKey (Key r) (Value r)"

subsection \<open>Records of the repository's tests\<close>

text \<open>The records of \<^verbatim>\<open>TestTrieExists\<close>, \<^verbatim>\<open>TestTrieFind\<close>, \<^verbatim>\<open>TestTrieKeysStartingWith\<close>
  and \<^verbatim>\<open>TestTrieLoadSave\<close>; a list with one record twice; a record with the byte 0xFF in
  its key.\<close>

definition test_exists :: "Record list" where
  "test_exists = [\<lparr>Key = ''foo'', Value = ''bar''\<rparr>, \<lparr>Key = ''foobar'', Value = ''baz''\<rparr>]"

definition scenario_A :: "Record list" where
  "scenario_A =
     [\<lparr>Key = ''foo'', Value = ''bar''\<rparr>, \<lparr>Key = ''abc'', Value = ''def''\<rparr>,
      \<lparr>Key = ''foo'', Value = ''baz''\<rparr>]"

definition scenario_B :: "Record list" where
  "scenario_B =
     [\<lparr>Key = ''foo'', Value = ''bar''\<rparr>, \<lparr>Key = ''abc'', Value = ''def''\<rparr>,
      \<lparr>Key = ''a'', Value = ''apple''\<rparr>, \<lparr>Key = ''ac'', Value = ''acorn''\<rparr>,
      \<lparr>Key = ''foo'', Value = ''baz''\<rparr>]"

definition twice :: "Record list" where
  "twice = [\<lparr>Key = ''foo'', Value = ''bar''\<rparr>, \<lparr>Key = ''foo'', Value = ''bar''\<rparr>]"

definition sentinel_key :: "Record list" where
  "sentinel_key = [\<lparr>Key = ''a'' @ CHR 0xFF # ''b'', Value = ''v''\<rparr>]"

definition test_load_save :: "Record list" where
  "test_load_save = [\<lparr>Key = ''abc'', Value = ''def''\<rparr>]"

section \<open>Properties of the key codec\<close>

lemma Index_byte:
  "Index s [c] = (if c \<in> set s then Some (length (takeWhile (\<lambda>x. x \<noteq> c) s)) else None)"
  by (induction s) auto

lemma takeWhile_upto_byte:
  "c \<notin> set k \<Longrightarrow> takeWhile (\<lambda>x. x \<noteq> c) (k @ c # v) = k"
  by (induction k) auto

lemma takeWhile_no_byte:
  "c \<notin> set b \<Longrightarrow> takeWhile (\<lambda>x. x \<noteq> c) b = b"
  by (induction b) auto

lemma splitTrieKey_no_sep:
  "CHR 0xFF \<notin> set b \<Longrightarrow> splitTrieKey b = (b, [])"
  by (simp add: splitTrieKey_def KV_SEPARATOR_def Index_byte numeral_2_eq_2)

lemma splitTrieKey_first_sep:
  "CHR 0xFF \<notin> set k \<Longrightarrow> splitTrieKey (k @ CHR 0xFF # v) = (k, v)"
  by (simp add: splitTrieKey_def KV_SEPARATOR_def Index_byte numeral_2_eq_2
      takeWhile_upto_byte)

lemma first_separator:
  "c \<in> set b \<Longrightarrow> \<exists>k v. b = k @ c # v \<and> c \<notin> set k"
  by (metis split_list_first)

text \<open>
  C3. Decoding an encoded pair gives the pair back: for every key without the byte 0xFF
  and every value, with or without that byte,
  \<open>splitTrieKey (buildTrieKey key value) = (key, value)\<close>.
\<close>

theorem splitTrieKey_buildTrieKey:
  "CHR 0xFF \<notin> set key \<Longrightarrow> splitTrieKey (buildTrieKey key value) = (key, value)"
  by (simp add: buildTrieKey_def KV_SEPARATOR_def splitTrieKey_first_sep)

theorem splitTrieKey_buildTrieKey_witness:
  "CHR 0xFF \<notin> set ''foo'' \<and>
   splitTrieKey (buildTrieKey ''foo'' (''bar'' @ [CHR 0xFF] @ ''baz'')) =
     (''foo'', ''bar'' @ [CHR 0xFF] @ ''baz'')"
proof -
  have h: "CHR 0xFF \<notin> set ''foo''" by simp
  show ?thesis
    using h splitTrieKey_buildTrieKey [OF h, of "''bar'' @ [CHR 0xFF] @ ''baz''"] by simp
qed

text \<open>
  C7. \<open>splitTrieKey\<close> splits at the first byte 0xFF. Without that byte in \<open>b\<close>, the
  result is \<open>b\<close> and the empty value. With it, \<open>b\<close> is some \<open>k\<close>, the byte, and some
  \<open>v\<close>, where \<open>k\<close> is free of the byte; for every such way to write \<open>b\<close> the result
  is \<open>(k, v)\<close>, whatever bytes \<open>v\<close> has.
\<close>

theorem splitTrieKey_first_occurrence:
  "(CHR 0xFF \<notin> set b \<longrightarrow> splitTrieKey b = (b, [])) \<and>
   (CHR 0xFF \<in> set b \<longrightarrow> (\<exists>k v. b = k @ KV_SEPARATOR @ v \<and> CHR 0xFF \<notin> set k)) \<and>
   (\<forall>k v. b = k @ KV_SEPARATOR @ v \<and> CHR 0xFF \<notin> set k \<longrightarrow> splitTrieKey b = (k, v))"
  using first_separator [of "CHR 0xFF" b]
  by (simp add: KV_SEPARATOR_def splitTrieKey_no_sep splitTrieKey_first_sep)

theorem splitTrieKey_first_occurrence_witness:
  "splitTrieKey ''test'' = (''test'', []) \<and>
   splitTrieKey (''test'' @ [CHR 0xFF]) = (''test'', []) \<and>
   splitTrieKey (''foo'' @ [CHR 0xFF] @ ''bar'' @ [CHR 0xFF]) = (''foo'', ''bar'' @ [CHR 0xFF])"
proof -
  have a: "splitTrieKey ''test'' = (''test'', [])"
    using splitTrieKey_first_occurrence [of "''test''"] by simp
  have "''test'' @ [CHR 0xFF] = ''test'' @ KV_SEPARATOR @ [] \<and> CHR 0xFF \<notin> set ''test''"
    by (simp add: KV_SEPARATOR_def)
  with splitTrieKey_first_occurrence [of "''test'' @ [CHR 0xFF]"]
  have b: "splitTrieKey (''test'' @ [CHR 0xFF]) = (''test'', [])"
    by blast
  have "''foo'' @ [CHR 0xFF] @ ''bar'' @ [CHR 0xFF] = ''foo'' @ KV_SEPARATOR @ (''bar'' @ [CHR 0xFF])
      \<and> CHR 0xFF \<notin> set ''foo''"
    by (simp add: KV_SEPARATOR_def)
  with splitTrieKey_first_occurrence [of "''foo'' @ [CHR 0xFF] @ ''bar'' @ [CHR 0xFF]"]
  have c: "splitTrieKey (''foo'' @ [CHR 0xFF] @ ''bar'' @ [CHR 0xFF]) = (''foo'', ''bar'' @ [CHR 0xFF])"
    by blast
  from a b c show ?thesis by blast
qed

lemma splitTrieKey_takeWhile:
  "splitTrieKey b =
     (takeWhile (\<lambda>c. c \<noteq> CHR 0xFF) b,
      drop (Suc (length (takeWhile (\<lambda>c. c \<noteq> CHR 0xFF) b))) b)"
proof (cases "CHR 0xFF \<in> set b")
  case True
  then obtain k v where b: "b = k @ CHR 0xFF # v" and k: "CHR 0xFF \<notin> set k"
    using first_separator [of "CHR 0xFF" b] by blast
  have s: "splitTrieKey (k @ CHR 0xFF # v) = (k, v)"
    using k by (rule splitTrieKey_first_sep)
  have t: "takeWhile (\<lambda>c. c \<noteq> CHR 0xFF) (k @ CHR 0xFF # v) = k"
    using k by (rule takeWhile_upto_byte)
  have d: "drop (Suc (length k)) (k @ CHR 0xFF # v) = v"
    by simp
  show ?thesis
    unfolding b s t d ..
next
  case False
  have s: "splitTrieKey b = (b, [])"
    using False by (rule splitTrieKey_no_sep)
  have t: "takeWhile (\<lambda>c. c \<noteq> CHR 0xFF) b = b"
    using False by (rule takeWhile_no_byte)
  have d: "drop (Suc (length b)) b = []"
    by simp
  show ?thesis
    unfolding s t d ..
qed

section \<open>The loop of \<^verbatim>\<open>iter\<close> and the four queries\<close>

text \<open>
  A closure that always goes on makes the loop a \<open>map\<close> over the matches; the closure
  of \<^verbatim>\<open>Exists\<close> stops at the first match.
\<close>

lemma iter_loop_collect:
  "iter_loop xs (\<lambda>k v acc. (True, acc @ [g k v])) acc =
     acc @ map (\<lambda>x. case splitTrieKey x of (k, v) \<Rightarrow> g k v) xs"
  by (induction xs arbitrary: acc) (auto split: prod.splits)

lemma iter_loop_first:
  "iter_loop xs (\<lambda>k v e. (False, True)) e = (if xs = [] then e else True)"
  by (cases xs) (auto split: prod.splits)

lemma Exists_eq:
  "Exists E r key \<longleftrightarrow> Trie_PredictiveSearch E (trie r) (buildTrieKey key []) \<noteq> []"
  by (simp add: Exists_def iter_def iter_loop_first)

lemma Find_eq:
  "Find E r key = map (\<lambda>x. snd (splitTrieKey x)) (Trie_PredictiveSearch E (trie r) (buildTrieKey key []))"
  by (simp add: Find_def iter_def iter_loop_collect [where g = "\<lambda>k v. v"] split_def)

lemma KeysStartingWith_eq:
  "KeysStartingWith E r p = map (\<lambda>x. fst (splitTrieKey x)) (Trie_PredictiveSearch E (trie r) p)"
  by (simp add: KeysStartingWith_def iter_def iter_loop_collect [where g = "\<lambda>k v. k"] split_def)

lemma Records_eq:
  "Records E r = map (\<lambda>x. \<lparr>Key = fst (splitTrieKey x), Value = snd (splitTrieKey x)\<rparr>)
     (Trie_PredictiveSearch E (trie r) [])"
  by (simp add: Records_def iter_def
      iter_loop_collect [where g = "\<lambda>k v. \<lparr>Key = k, Value = v\<rparr>"] split_def)

text \<open>
  C10. For every store and every key, \<^verbatim>\<open>Exists(key)\<close> is true exactly when
  \<^verbatim>\<open>Find(key)\<close> returns a sequence that is not empty: both search with the query
  \<open>buildTrieKey key []\<close>. Nothing is asked of the library.
\<close>

theorem Exists_iff_Find: "Exists E r key \<longleftrightarrow> Find E r key \<noteq> []"
  by (simp add: Exists_eq Find_eq)

section \<open>Construction\<close>

lemma keyset_loop:
  "foldl (\<lambda>ks record. ks @ [buildTrieKey (Key record) (Value record)]) acc records =
     acc @ map trieKey_of records"
  by (induction records arbitrary: acc) (auto simp: trieKey_of_def)

lemma New_eq:
  "New E R = (case Trie_Build E (NewTrie E) (map trieKey_of R) of
      Returns t' \<Rightarrow> Returns \<lparr>trie = t'\<rparr> | Panics p \<Rightarrow> Panics p)"
  by (simp add: New_def build_def keyset_loop split: go_result.splits)

lemma New_Returns:
  "New E R = Returns s \<Longrightarrow> Trie_Build E (NewTrie E) (map trieKey_of R) = Returns (trie s)"
  by (auto simp: New_eq split: go_result.splits)

lemma New_stores:
  "builds E \<Longrightarrow> New E R = Returns s \<Longrightarrow> stores E (trie s) (map trieKey_of R)"
  unfolding builds_def using New_Returns by blast

section \<open>The reference engines\<close>

lemma builds_list_engine: "builds (list_engine dedup)"
  by (auto simp: builds_def stores_def list_engine_def)

lemma ascending_list_engine: "sorted tr \<Longrightarrow> ascending (list_engine dedup) tr"
  by (simp add: ascending_def list_engine_def sorted_wrt_filter)

lemma persists_list_engine: "persists (list_engine dedup)"
  by (simp add: persists_def list_engine_def)

lemma at_most_pushed_list_engine:
  "at_most_pushed (list_engine dedup) (sort (if dedup then remdups ks else ks)) ks"
proof -
  have "count (mset (filter (prefix q) (sort (if dedup then remdups ks else ks)))) x
        \<le> count (mset ks) x" for q x
  proof -
    have "mset (filter (prefix q) (sort (if dedup then remdups ks else ks)))
          \<subseteq># mset (if dedup then remdups ks else ks)"
      by (metis mset_filter mset_sort multiset_filter_subset)
    also have "\<dots> \<subseteq># mset ks"
      by (simp add: mset_remdups_subset_eq)
    finally show ?thesis by (rule mset_subset_eq_count)
  qed
  then show ?thesis by (simp add: at_most_pushed_def list_engine_def)
qed

lemmas eval_defs = New_eq list_engine_def trieKey_of_def buildTrieKey_def KV_SEPARATOR_def
  Find_eq Exists_eq KeysStartingWith_eq Records_eq values_of_def keys_with_prefix_def
  valid_records_def splitTrieKey_takeWhile pair_of_def

theorem Exists_iff_Find_witness:
  "Exists (list_engine False) \<lparr>trie = [''foo'' @ CHR 0xFF # ''bar'']\<rparr> ''foo'' \<and>
   Find (list_engine False) \<lparr>trie = [''foo'' @ CHR 0xFF # ''bar'']\<rparr> ''foo'' = [''bar''] \<and>
   \<not> Exists (list_engine False) \<lparr>trie = [''foo'' @ CHR 0xFF # ''bar'']\<rparr> ''key'' \<and>
   Find (list_engine False) \<lparr>trie = [''foo'' @ CHR 0xFF # ''bar'']\<rparr> ''key'' = []"
  using Exists_iff_Find [of "list_engine False" "\<lparr>trie = [''foo'' @ CHR 0xFF # ''bar'']\<rparr>" "''foo''"]
    Exists_iff_Find [of "list_engine False" "\<lparr>trie = [''foo'' @ CHR 0xFF # ''bar'']\<rparr>" "''key''"]
  by (simp add: eval_defs)

section \<open>Trie keys, prefixes and order\<close>

lemma prefix_query_iff:
  "CHR 0xFF \<notin> set k \<Longrightarrow> CHR 0xFF \<notin> set k' \<Longrightarrow>
   prefix (k @ [CHR 0xFF]) (k' @ CHR 0xFF # v) \<longleftrightarrow> k = k'"
proof (induction k arbitrary: k')
  case Nil
  then show ?case by (cases k') auto
next
  case (Cons a k)
  then show ?case by (cases k') auto
qed

lemma prefix_trieKey_iff:
  "CHR 0xFF \<notin> set k \<Longrightarrow> CHR 0xFF \<notin> set (Key r) \<Longrightarrow>
   prefix (buildTrieKey k []) (trieKey_of r) \<longleftrightarrow> Key r = k"
  using prefix_query_iff [of k "Key r" "Value r"]
  by (auto simp: buildTrieKey_def trieKey_of_def KV_SEPARATOR_def)

lemma prefix_raw_iff:
  "CHR 0xFF \<notin> set p \<Longrightarrow> prefix p (k @ CHR 0xFF # v) \<longleftrightarrow> prefix p k"
proof (induction p arbitrary: k)
  case Nil
  then show ?case by simp
next
  case (Cons a p)
  then show ?case by (cases k) auto
qed

lemma prefix_raw_trieKey_iff:
  "CHR 0xFF \<notin> set p \<Longrightarrow> prefix p (trieKey_of r) \<longleftrightarrow> prefix p (Key r)"
  using prefix_raw_iff [of p "Key r" "Value r"]
  by (simp add: buildTrieKey_def trieKey_of_def KV_SEPARATOR_def)

lemma split_trieKey_of:
  "CHR 0xFF \<notin> set (Key r) \<Longrightarrow> splitTrieKey (trieKey_of r) = (Key r, Value r)"
  by (simp add: trieKey_of_def buildTrieKey_def KV_SEPARATOR_def splitTrieKey_first_sep)

lemma trieKey_of_inj:
  "valid_records R \<Longrightarrow> inj_on trieKey_of (set R)"
proof (rule inj_onI)
  fix x y assume v: "valid_records R" and x: "x \<in> set R" and y: "y \<in> set R"
    and e: "trieKey_of x = trieKey_of y"
  from v x have "splitTrieKey (trieKey_of x) = (Key x, Value x)"
    by (simp add: valid_records_def split_trieKey_of)
  moreover from v y have "splitTrieKey (trieKey_of y) = (Key y, Value y)"
    by (simp add: valid_records_def split_trieKey_of)
  ultimately show "x = y" using e by simp
qed

lemma record_of_trieKey:
  "CHR 0xFF \<notin> set (Key r) \<Longrightarrow>
   \<lparr>Key = fst (splitTrieKey (trieKey_of r)), Value = snd (splitTrieKey (trieKey_of r))\<rparr> = r"
  by (simp add: split_trieKey_of)

lemma append_le_cancel:
  fixes xs :: "'a::linorder list"
  shows "xs @ ys \<le> xs @ zs \<longleftrightarrow> ys \<le> zs"
  by (induction xs) auto

lemma byte_less_FF: "c \<noteq> CHR 0xFF \<Longrightarrow> c < CHR 0xFF"
proof -
  assume a: "c \<noteq> CHR 0xFF"
  have lt: "of_char c < (256::nat)" by (rule nat_of_char_less_256)
  have "of_char c \<noteq> (of_char (CHR 0xFF) :: nat)"
    using a by (simp only: of_char_eq_iff) simp
  then have ne: "of_char c \<noteq> (255::nat)" by simp
  from lt ne have "of_char c < (255::nat)" by arith
  then show ?thesis by (simp add: less_char_def)
qed

lemma key_order_of_trieKey_order:
  "CHR 0xFF \<notin> set k1 \<Longrightarrow> CHR 0xFF \<notin> set k2 \<Longrightarrow>
   k1 @ CHR 0xFF # v1 \<le> k2 @ CHR 0xFF # v2 \<Longrightarrow> k1 @ [CHR 0xFF] \<le> k2 @ [CHR 0xFF]"
proof (induction k1 arbitrary: k2)
  case Nil
  then show ?case
    by (cases k2) (auto dest: byte_less_FF)
next
  case (Cons a k1)
  then show ?case
    by (cases k2) (auto dest: byte_less_FF)
qed

lemma sorted_map_on:
  fixes xs :: "'a::linorder list" and f :: "'a \<Rightarrow> 'b::linorder"
  assumes "sorted xs" and "\<And>x y. x \<in> set xs \<Longrightarrow> y \<in> set xs \<Longrightarrow> x \<le> y \<Longrightarrow> f x \<le> f y"
  shows "sorted (map f xs)"
  using assms by (induction xs) auto

lemma mset_map_filter_cong:
  assumes "\<And>x. x \<in> set xs \<Longrightarrow> P x = Q x" and "\<And>x. x \<in> set xs \<Longrightarrow> f x = g x"
  shows "map f (filter P xs) = map g (filter Q xs)"
  using assms by (induction xs) auto

lemma stores_mset:
  assumes "stores E tr ks" and "distinct ks"
  shows "mset (Trie_PredictiveSearch E tr q) = mset (filter (prefix q) ks)"
proof -
  from assms have "distinct (Trie_PredictiveSearch E tr q)"
    and "set (Trie_PredictiveSearch E tr q) = set (filter (prefix q) ks)"
    by (auto simp: stores_def)
  moreover have "distinct (filter (prefix q) ks)" using assms(2) by simp
  ultimately show ?thesis by (simp only: set_eq_iff_mset_eq_distinct)
qed

lemma search_set:
  assumes "builds E" and "New E R = Returns s"
  shows "set (Trie_PredictiveSearch E (trie s) q) = trieKey_of ` {r \<in> set R. prefix q (trieKey_of r)}"
  using New_stores [OF assms] by (auto simp: stores_def)

lemma search_mset:
  assumes "builds E" and "New E R = Returns s" and "valid_records R" and "distinct R"
  shows "mset (Trie_PredictiveSearch E (trie s) q) =
         mset (map trieKey_of (filter (\<lambda>r. prefix q (trieKey_of r)) R))"
proof -
  have "distinct (map trieKey_of R)"
    using assms(3,4) by (simp add: distinct_map trieKey_of_inj)
  with New_stores [OF assms(1,2)]
  have "mset (Trie_PredictiveSearch E (trie s) q) = mset (filter (prefix q) (map trieKey_of R))"
    by (rule stores_mset)
  then show ?thesis by (simp add: filter_map comp_def)
qed

lemma distinct_subset_mset:
  "distinct xs \<Longrightarrow> set xs \<subseteq> set ys \<Longrightarrow> mset xs \<subseteq># mset ys"
proof (rule mset_subset_eqI)
  fix a assume d: "distinct xs" and s: "set xs \<subseteq> set ys"
  show "count (mset xs) a \<le> count (mset ys) a"
  proof (cases "a \<in> set xs")
    case True
    with d have "count (mset xs) a = 1" by (simp add: distinct_count_atmost_1)
    moreover from True s have "a \<in> set ys" by blast
    then have "1 \<le> count (mset ys) a" by (simp add: Suc_le_eq)
    ultimately show ?thesis by simp
  next
    case False
    then have "count (mset xs) a = 0" by (metis count_eq_zero_iff set_mset_mset)
    then show ?thesis by linarith
  qed
qed

lemma stores_upper:
  assumes "stores E tr ks" and "distinct ks \<or> at_most_pushed E tr ks"
  shows "mset (Trie_PredictiveSearch E tr q) \<subseteq># mset (filter (prefix q) ks)"
proof (rule mset_subset_eqI)
  fix a
  let ?ms = "Trie_PredictiveSearch E tr q"
  from assms(1) have s: "set ?ms = {k \<in> set ks. prefix q k}" by (simp add: stores_def)
  show "count (mset ?ms) a \<le> count (mset (filter (prefix q) ks)) a"
  proof (cases "prefix q a")
    case True
    have "count (mset ?ms) a \<le> count (mset ks) a"
    proof (cases "distinct ks")
      case True
      with assms(1) have "mset ?ms = mset (filter (prefix q) ks)" by (rule stores_mset)
      then show ?thesis by simp
    next
      case False
      with assms(2) show ?thesis by (simp add: at_most_pushed_def)
    qed
    with True show ?thesis by simp
  next
    case False
    with s have "a \<notin> set ?ms" by simp
    then have "count (mset ?ms) a = 0" by (metis count_eq_zero_iff set_mset_mset)
    then show ?thesis by linarith
  qed
qed

lemma search_lower:
  assumes "builds E" and "New E R = Returns s" and "valid_records R"
  shows "mset (map trieKey_of (filter (\<lambda>r. prefix q (trieKey_of r)) (remdups R)))
         \<subseteq># mset (Trie_PredictiveSearch E (trie s) q)"
proof (rule distinct_subset_mset)
  have "inj_on trieKey_of (set (filter (\<lambda>r. prefix q (trieKey_of r)) (remdups R)))"
    using trieKey_of_inj [OF assms(3)] by (rule inj_on_subset) auto
  then show "distinct (map trieKey_of (filter (\<lambda>r. prefix q (trieKey_of r)) (remdups R)))"
    by (simp add: distinct_map)
  show "set (map trieKey_of (filter (\<lambda>r. prefix q (trieKey_of r)) (remdups R)))
        \<subseteq> set (Trie_PredictiveSearch E (trie s) q)"
    by (auto simp: search_set [OF assms(1,2)])
qed

lemma search_upper:
  assumes "builds E" and "New E R = Returns s" and "valid_records R"
    and "distinct R \<or> at_most_pushed E (trie s) (map trieKey_of R)"
  shows "mset (Trie_PredictiveSearch E (trie s) q)
         \<subseteq># mset (map trieKey_of (filter (\<lambda>r. prefix q (trieKey_of r)) R))"
proof -
  have "distinct R \<Longrightarrow> distinct (map trieKey_of R)"
    using assms(3) by (simp add: distinct_map trieKey_of_inj)
  with assms(4) have "distinct (map trieKey_of R) \<or> at_most_pushed E (trie s) (map trieKey_of R)"
    by blast
  with New_stores [OF assms(1,2)]
  have "mset (Trie_PredictiveSearch E (trie s) q) \<subseteq># mset (filter (prefix q) (map trieKey_of R))"
    by (rule stores_upper)
  then show ?thesis by (simp add: filter_map comp_def)
qed

lemma decode_lower:
  assumes "builds E" and "New E R = Returns s" and "valid_records R"
    and "\<And>r. r \<in> set R \<Longrightarrow> prefix q (trieKey_of r) = P r"
    and "\<And>r. r \<in> set R \<Longrightarrow> g (trieKey_of r) = f r"
  shows "mset (map f (filter P (remdups R))) \<subseteq># mset (map g (Trie_PredictiveSearch E (trie s) q))"
proof -
  have "map f (filter P (remdups R)) =
        map (\<lambda>r. g (trieKey_of r)) (filter (\<lambda>r. prefix q (trieKey_of r)) (remdups R))"
    using assms(4,5) by (intro mset_map_filter_cong) auto
  then have "mset (map f (filter P (remdups R))) =
      image_mset g (mset (map trieKey_of (filter (\<lambda>r. prefix q (trieKey_of r)) (remdups R))))"
    by (simp add: multiset.map_comp comp_def)
  also have "\<dots> \<subseteq># image_mset g (mset (Trie_PredictiveSearch E (trie s) q))"
    using search_lower [OF assms(1,2,3)] by (rule image_mset_subseteq_mono)
  finally show ?thesis by simp
qed

lemma decode_upper:
  assumes "builds E" and "New E R = Returns s" and "valid_records R"
    and "distinct R \<or> at_most_pushed E (trie s) (map trieKey_of R)"
    and "\<And>r. r \<in> set R \<Longrightarrow> prefix q (trieKey_of r) = P r"
    and "\<And>r. r \<in> set R \<Longrightarrow> g (trieKey_of r) = f r"
  shows "mset (map g (Trie_PredictiveSearch E (trie s) q)) \<subseteq># mset (map f (filter P R))"
proof -
  have "map f (filter P R) =
        map (\<lambda>r. g (trieKey_of r)) (filter (\<lambda>r. prefix q (trieKey_of r)) R)"
    using assms(5,6) by (intro mset_map_filter_cong) auto
  then have e: "mset (map f (filter P R)) =
      image_mset g (mset (map trieKey_of (filter (\<lambda>r. prefix q (trieKey_of r)) R)))"
    by (simp add: multiset.map_comp comp_def)
  have "image_mset g (mset (Trie_PredictiveSearch E (trie s) q))
      \<subseteq># image_mset g (mset (map trieKey_of (filter (\<lambda>r. prefix q (trieKey_of r)) R)))"
    using search_upper [OF assms(1,2,3,4)] by (rule image_mset_subseteq_mono)
  with e show ?thesis by simp
qed

section \<open>Exists\<close>

text \<open>
  C4, as amended. Let the store be built by \<^verbatim>\<open>New\<close> from the records \<open>R\<close>, whose keys are
  free of the byte 0xFF, with a library that builds a trie holding the keyset. For every
  key \<open>k\<close> free of the byte 0xFF, \<^verbatim>\<open>Exists(k)\<close> is true exactly when some record of \<open>R\<close>
  has the key \<open>k\<close>.
\<close>

theorem Exists_correct:
  assumes "builds E" and "New E R = Returns s" and "valid_records R" and "CHR 0xFF \<notin> set k"
  shows "Exists E s k \<longleftrightarrow> (\<exists>r \<in> set R. Key r = k)"
proof -
  from assms(1,2) have st: "stores E (trie s) (map trieKey_of R)"
    by (rule New_stores)
  have "Exists E s k \<longleftrightarrow> set (Trie_PredictiveSearch E (trie s) (buildTrieKey k [])) \<noteq> {}"
    by (simp add: Exists_eq)
  also have "\<dots> \<longleftrightarrow> (\<exists>r \<in> set R. prefix (buildTrieKey k []) (trieKey_of r))"
    using st by (auto simp: stores_def)
  also have "\<dots> \<longleftrightarrow> (\<exists>r \<in> set R. Key r = k)"
    using assms(3,4) by (auto simp: valid_records_def prefix_trieKey_iff)
  finally show ?thesis .
qed

theorem Exists_correct_witness:
  "builds (list_engine False) \<and>
   New (list_engine False) test_exists =
     Returns \<lparr>trie = [''foobar'' @ CHR 0xFF # ''baz'', ''foo'' @ CHR 0xFF # ''bar'']\<rparr> \<and>
   valid_records test_exists \<and> CHR 0xFF \<notin> set ''foo'' \<and> CHR 0xFF \<notin> set ''key'' \<and>
   Exists (list_engine False) \<lparr>trie = [''foobar'' @ CHR 0xFF # ''baz'', ''foo'' @ CHR 0xFF # ''bar'']\<rparr> ''foo'' \<and>
   \<not> Exists (list_engine False) \<lparr>trie = [''foobar'' @ CHR 0xFF # ''baz'', ''foo'' @ CHR 0xFF # ''bar'']\<rparr> ''key''"
proof -
  let ?E = "list_engine False"
  let ?s = "\<lparr>trie = [''foobar'' @ CHR 0xFF # ''baz'', ''foo'' @ CHR 0xFF # ''bar'']\<rparr>"
  have b: "builds ?E" by (rule builds_list_engine)
  have n: "New ?E test_exists = Returns ?s" by (simp add: eval_defs test_exists_def)
  have v: "valid_records test_exists" by (simp add: valid_records_def test_exists_def)
  have k1: "CHR 0xFF \<notin> set ''foo''" and k2: "CHR 0xFF \<notin> set ''key''" by simp_all
  have "Exists ?E ?s ''foo''"
    using Exists_correct [OF b n v k1] by (simp add: test_exists_def)
  moreover have "\<not> Exists ?E ?s ''key''"
    using Exists_correct [OF b n v k2] by (simp add: test_exists_def)
  ultimately show ?thesis using b n v k1 k2 by blast
qed

text \<open>
  C4 as stated, for every list of records, fails: \<^verbatim>\<open>New\<close> takes the record with key
  \<open>a\<close>, 0xFF, \<open>b\<close> and value \<open>v\<close>, and then \<^verbatim>\<open>Exists\<close> is true for the key \<open>a\<close>, which is
  free of the byte 0xFF and is the key of no record.
\<close>

theorem Exists_sentinel_key_counterexample:
  "New (list_engine False) sentinel_key =
     Returns \<lparr>trie = [''a'' @ CHR 0xFF # ''b'' @ CHR 0xFF # ''v'']\<rparr> \<and>
   CHR 0xFF \<notin> set ''a'' \<and>
   Exists (list_engine False) \<lparr>trie = [''a'' @ CHR 0xFF # ''b'' @ CHR 0xFF # ''v'']\<rparr> ''a'' \<and>
   map Key sentinel_key = [''a'' @ CHR 0xFF # ''b''] \<and>
   ''a'' \<notin> set (map Key sentinel_key)"
  by (simp add: eval_defs sentinel_key_def)

section \<open>Find\<close>

lemma Find_set:
  assumes "builds E" and "New E R = Returns s" and "valid_records R" and "CHR 0xFF \<notin> set k"
  shows "set (Find E s k) = set (values_of R k)"
proof -
  have "set (Find E s k) =
      (\<lambda>x. snd (splitTrieKey x)) ` trieKey_of ` {r \<in> set R. prefix (buildTrieKey k []) (trieKey_of r)}"
    by (simp add: Find_eq search_set [OF assms(1,2)])
  also have "\<dots> = (\<lambda>r. snd (splitTrieKey (trieKey_of r))) ` {r \<in> set R. Key r = k}"
    using assms(3,4) by (auto simp: valid_records_def prefix_trieKey_iff image_image)
  also have "\<dots> = Value ` {r \<in> set R. Key r = k}"
    using assms(3) by (auto simp: valid_records_def split_trieKey_of image_iff)
  also have "\<dots> = set (values_of R k)"
    by (auto simp: values_of_def)
  finally show ?thesis .
qed

lemma Find_mset:
  assumes "builds E" and "New E R = Returns s" and "valid_records R" and "CHR 0xFF \<notin> set k"
    and "distinct R"
  shows "mset (Find E s k) = mset (values_of R k)"
proof -
  let ?q = "buildTrieKey k []"
  have "mset (Find E s k) = image_mset (\<lambda>x. snd (splitTrieKey x)) (mset (Trie_PredictiveSearch E (trie s) ?q))"
    by (simp add: Find_eq)
  also have "\<dots> = mset (map (\<lambda>r. snd (splitTrieKey (trieKey_of r))) (filter (\<lambda>r. prefix ?q (trieKey_of r)) R))"
    by (simp add: search_mset [OF assms(1,2,3,5)] multiset.map_comp comp_def)
  also have "map (\<lambda>r. snd (splitTrieKey (trieKey_of r))) (filter (\<lambda>r. prefix ?q (trieKey_of r)) R)
      = map Value (filter (\<lambda>r. Key r = k) R)"
    using assms(3,4)
    by (intro mset_map_filter_cong) (auto simp: valid_records_def prefix_trieKey_iff split_trieKey_of)
  finally show ?thesis by (simp add: values_of_def)
qed

lemma Find_sorted:
  assumes "builds E" and "New E R = Returns s" and "valid_records R" and "CHR 0xFF \<notin> set k"
    and "ascending E (trie s)"
  shows "sorted (Find E s k)"
proof -
  let ?ms = "Trie_PredictiveSearch E (trie s) (buildTrieKey k [])"
  have shape: "\<exists>v. x = k @ CHR 0xFF # v \<and> snd (splitTrieKey x) = v" if "x \<in> set ?ms" for x
  proof -
    from that obtain r where r: "r \<in> set R" "x = trieKey_of r" "prefix (buildTrieKey k []) (trieKey_of r)"
      by (auto simp: search_set [OF assms(1,2)])
    with assms(3,4) have "Key r = k"
      by (simp add: valid_records_def prefix_trieKey_iff)
    with r(2) assms(4) show ?thesis
      by (simp add: trieKey_of_def buildTrieKey_def KV_SEPARATOR_def splitTrieKey_first_sep)
  qed
  have "sorted ?ms" using assms(5) by (simp add: ascending_def)
  then have "sorted (map (\<lambda>x. snd (splitTrieKey x)) ?ms)"
  proof (rule sorted_map_on)
    fix x y assume xy: "x \<in> set ?ms" "y \<in> set ?ms" "x \<le> y"
    from shape [OF xy(1)] obtain v where v: "x = k @ CHR 0xFF # v" "snd (splitTrieKey x) = v"
      by blast
    from shape [OF xy(2)] obtain w where w: "y = k @ CHR 0xFF # w" "snd (splitTrieKey y) = w"
      by blast
    from xy(3) v(1) w(1) have "CHR 0xFF # v \<le> CHR 0xFF # w"
      by (simp only: append_le_cancel)
    then show "snd (splitTrieKey x) \<le> snd (splitTrieKey y)"
      using v(2) w(2) by simp
  qed
  then show ?thesis by (simp add: Find_eq)
qed

lemma Find_order:
  assumes "builds E" and "New E R = Returns s" and "valid_records R" and "CHR 0xFF \<notin> set k"
  shows "map (buildTrieKey k) (Find E s k) = Trie_PredictiveSearch E (trie s) (buildTrieKey k [])"
proof -
  let ?ms = "Trie_PredictiveSearch E (trie s) (buildTrieKey k [])"
  have "map (\<lambda>x. buildTrieKey k (snd (splitTrieKey x))) ?ms = map (\<lambda>x. x) ?ms"
  proof (intro map_cong refl)
    fix x assume "x \<in> set ?ms"
    then obtain r where r: "r \<in> set R" "x = trieKey_of r" "prefix (buildTrieKey k []) (trieKey_of r)"
      by (auto simp: search_set [OF assms(1,2)])
    with assms(3,4) have "Key r = k"
      by (simp add: valid_records_def prefix_trieKey_iff)
    with r(2) assms(4) show "buildTrieKey k (snd (splitTrieKey x)) = x"
      by (simp add: trieKey_of_def buildTrieKey_def KV_SEPARATOR_def splitTrieKey_first_sep)
  qed
  then show ?thesis by (simp add: Find_eq comp_def)
qed

lemma Find_lower:
  assumes "builds E" and "New E R = Returns s" and "valid_records R" and "CHR 0xFF \<notin> set k"
  shows "mset (values_of (remdups R) k) \<subseteq># mset (Find E s k)"
  unfolding values_of_def Find_eq
  using assms(3,4)
  by (intro decode_lower [OF assms(1,2,3)])
    (auto simp: valid_records_def prefix_trieKey_iff split_trieKey_of)

lemma Find_upper:
  assumes "builds E" and "New E R = Returns s" and "valid_records R" and "CHR 0xFF \<notin> set k"
    and "distinct R \<or> at_most_pushed E (trie s) (map trieKey_of R)"
  shows "mset (Find E s k) \<subseteq># mset (values_of R k)"
  unfolding values_of_def Find_eq
  using assms(3,4)
  by (intro decode_upper [OF assms(1,2,3,5)])
    (auto simp: valid_records_def prefix_trieKey_iff split_trieKey_of)

text \<open>
  C1, as amended. Let the store be built by \<^verbatim>\<open>New\<close> from the records \<open>R\<close>, whose keys are
  free of the byte 0xFF, and let \<open>k\<close> be free of it.
  \<^item> \<^verbatim>\<open>Find\<close> keeps the order of the library: the returned values, each encoded with
    \<open>k\<close>, are the sequence of trie keys that the library yields for the query.
  \<^item> The values returned are those of the records of \<open>R\<close> with key \<open>k\<close>, each record
    giving its value at least once.
  \<^item> When no record occurs twice in \<open>R\<close>, or the library yields no key more often than
    it was pushed, no record gives its value more often than it occurs in \<open>R\<close>; so a
    record that occurs once gives its value once.
  \<^item> When no record occurs twice in \<open>R\<close>, the result is exactly the multiset of the
    values.
  \<^item> When the library yields its matches in ascending order, the values ascend by
    their bytes.
\<close>

theorem Find_correct:
  assumes "builds E" and "New E R = Returns s" and "valid_records R" and "CHR 0xFF \<notin> set k"
  shows "map (buildTrieKey k) (Find E s k) = Trie_PredictiveSearch E (trie s) (buildTrieKey k []) \<and>
         set (Find E s k) = set (values_of R k) \<and>
         mset (values_of (remdups R) k) \<subseteq># mset (Find E s k) \<and>
         (distinct R \<or> at_most_pushed E (trie s) (map trieKey_of R) \<longrightarrow>
            mset (Find E s k) \<subseteq># mset (values_of R k)) \<and>
         (distinct R \<longrightarrow> mset (Find E s k) = mset (values_of R k)) \<and>
         (ascending E (trie s) \<longrightarrow> sorted (Find E s k))"
  using Find_order [OF assms] Find_set [OF assms] Find_lower [OF assms] Find_upper [OF assms]
    Find_mset [OF assms] Find_sorted [OF assms] by blast

theorem Find_correct_witness:
  "builds (list_engine False) \<and>
   New (list_engine False) scenario_A =
     Returns \<lparr>trie = [''abc'' @ CHR 0xFF # ''def'', ''foo'' @ CHR 0xFF # ''bar'', ''foo'' @ CHR 0xFF # ''baz'']\<rparr> \<and>
   valid_records scenario_A \<and> CHR 0xFF \<notin> set ''foo'' \<and> distinct scenario_A \<and>
   at_most_pushed (list_engine False)
     [''abc'' @ CHR 0xFF # ''def'', ''foo'' @ CHR 0xFF # ''bar'', ''foo'' @ CHR 0xFF # ''baz'']
     (map trieKey_of scenario_A) \<and>
   ascending (list_engine False) [''abc'' @ CHR 0xFF # ''def'', ''foo'' @ CHR 0xFF # ''bar'', ''foo'' @ CHR 0xFF # ''baz''] \<and>
   values_of scenario_A ''foo'' = [''bar'', ''baz''] \<and>
   map (buildTrieKey ''foo'') (Find (list_engine False) \<lparr>trie = [''abc'' @ CHR 0xFF # ''def'', ''foo'' @ CHR 0xFF # ''bar'', ''foo'' @ CHR 0xFF # ''baz'']\<rparr> ''foo'')
     = [''foo'' @ CHR 0xFF # ''bar'', ''foo'' @ CHR 0xFF # ''baz''] \<and>
   mset (Find (list_engine False) \<lparr>trie = [''abc'' @ CHR 0xFF # ''def'', ''foo'' @ CHR 0xFF # ''bar'', ''foo'' @ CHR 0xFF # ''baz'']\<rparr> ''foo'')
     = mset [''bar'', ''baz''] \<and>
   sorted (Find (list_engine False) \<lparr>trie = [''abc'' @ CHR 0xFF # ''def'', ''foo'' @ CHR 0xFF # ''bar'', ''foo'' @ CHR 0xFF # ''baz'']\<rparr> ''foo'')"
proof -
  let ?E = "list_engine False"
  let ?t = "[''abc'' @ CHR 0xFF # ''def'', ''foo'' @ CHR 0xFF # ''bar'', ''foo'' @ CHR 0xFF # ''baz'']"
  let ?s = "\<lparr>trie = ?t\<rparr>"
  have b: "builds ?E" by (rule builds_list_engine)
  have n: "New ?E scenario_A = Returns ?s" by (simp add: eval_defs scenario_A_def)
  have v: "valid_records scenario_A" by (simp add: valid_records_def scenario_A_def)
  have k: "CHR 0xFF \<notin> set ''foo''" by simp
  have d: "distinct scenario_A" by (simp add: scenario_A_def)
  have m: "at_most_pushed ?E ?t (map trieKey_of scenario_A)"
    using at_most_pushed_list_engine [of False "map trieKey_of scenario_A"]
    by (simp add: scenario_A_def trieKey_of_def buildTrieKey_def KV_SEPARATOR_def)
  have a: "ascending ?E ?t" by (rule ascending_list_engine) simp
  have r: "values_of scenario_A ''foo'' = [''bar'', ''baz'']"
    by (simp add: values_of_def scenario_A_def)
  have p: "Trie_PredictiveSearch ?E ?t (buildTrieKey ''foo'' []) =
      [''foo'' @ CHR 0xFF # ''bar'', ''foo'' @ CHR 0xFF # ''baz'']"
    by (simp add: list_engine_def buildTrieKey_def KV_SEPARATOR_def)
  from Find_correct [OF b n v k] d a r p
  have "map (buildTrieKey ''foo'') (Find ?E ?s ''foo'') = [''foo'' @ CHR 0xFF # ''bar'', ''foo'' @ CHR 0xFF # ''baz'']"
    and "mset (Find ?E ?s ''foo'') = mset [''bar'', ''baz'']" and "sorted (Find ?E ?s ''foo'')"
    by simp_all
  with b n v k d m a r show ?thesis by blast
qed

text \<open>
  The example of the repository prints the values \<open>peach, pear, apple\<close> for the key
  \<open>fruits\<close> and the keys \<open>fruits, fruits, fruits, foods, foods\<close> for the prefix \<open>f\<close>:
  the library used there does not yield its matches in ascending order, and the store
  keeps the order of the library.

  C1 as stated fails when a record occurs twice and the library keeps each key once,
  which the interface of the trie engine allows: the record \<open>(foo, bar)\<close> given twice
  has the values \<open>bar, bar\<close> for the key \<open>foo\<close>, and \<^verbatim>\<open>Find\<close> returns \<open>bar\<close> once.
  It fails as well when a key of \<open>R\<close> has the byte 0xFF: for the record with key \<open>a\<close>,
  0xFF, \<open>b\<close> and value \<open>v\<close>, \<^verbatim>\<open>Find\<close> returns a value for the key \<open>a\<close>, which no record
  has.
\<close>

theorem Find_multiset_counterexample:
  "New (list_engine True) twice = Returns \<lparr>trie = [''foo'' @ CHR 0xFF # ''bar'']\<rparr> \<and>
   Find (list_engine True) \<lparr>trie = [''foo'' @ CHR 0xFF # ''bar'']\<rparr> ''foo'' = [''bar''] \<and>
   values_of twice ''foo'' = [''bar'', ''bar''] \<and>
   mset (Find (list_engine True) \<lparr>trie = [''foo'' @ CHR 0xFF # ''bar'']\<rparr> ''foo'')
     \<noteq> mset (values_of twice ''foo'') \<and>
   New (list_engine False) sentinel_key =
     Returns \<lparr>trie = [''a'' @ CHR 0xFF # ''b'' @ CHR 0xFF # ''v'']\<rparr> \<and>
   Find (list_engine False) \<lparr>trie = [''a'' @ CHR 0xFF # ''b'' @ CHR 0xFF # ''v'']\<rparr> ''a''
     = [''b'' @ CHR 0xFF # ''v''] \<and>
   values_of sentinel_key ''a'' = []"
  by (simp add: eval_defs twice_def sentinel_key_def)

section \<open>KeysStartingWith\<close>

lemma KeysStartingWith_set:
  assumes "builds E" and "New E R = Returns s" and "valid_records R" and "CHR 0xFF \<notin> set p"
  shows "set (KeysStartingWith E s p) = set (keys_with_prefix R p)"
proof -
  have "set (KeysStartingWith E s p) =
      (\<lambda>x. fst (splitTrieKey x)) ` trieKey_of ` {r \<in> set R. prefix p (trieKey_of r)}"
    by (simp add: KeysStartingWith_eq search_set [OF assms(1,2)])
  also have "\<dots> = (\<lambda>r. fst (splitTrieKey (trieKey_of r))) ` {r \<in> set R. prefix p (Key r)}"
    using assms(4) by (auto simp: prefix_raw_trieKey_iff image_image)
  also have "\<dots> = Key ` {r \<in> set R. prefix p (Key r)}"
    using assms(3) by (auto simp: valid_records_def split_trieKey_of image_iff)
  also have "\<dots> = set (keys_with_prefix R p)"
    by (auto simp: keys_with_prefix_def)
  finally show ?thesis .
qed

lemma KeysStartingWith_mset:
  assumes "builds E" and "New E R = Returns s" and "valid_records R" and "CHR 0xFF \<notin> set p"
    and "distinct R"
  shows "mset (KeysStartingWith E s p) = mset (keys_with_prefix R p)"
proof -
  have "mset (KeysStartingWith E s p) =
      image_mset (\<lambda>x. fst (splitTrieKey x)) (mset (Trie_PredictiveSearch E (trie s) p))"
    by (simp add: KeysStartingWith_eq)
  also have "\<dots> = mset (map (\<lambda>r. fst (splitTrieKey (trieKey_of r))) (filter (\<lambda>r. prefix p (trieKey_of r)) R))"
    by (simp add: search_mset [OF assms(1,2,3,5)] multiset.map_comp comp_def)
  also have "map (\<lambda>r. fst (splitTrieKey (trieKey_of r))) (filter (\<lambda>r. prefix p (trieKey_of r)) R)
      = map Key (filter (\<lambda>r. prefix p (Key r)) R)"
    using assms(3,4)
    by (intro mset_map_filter_cong) (auto simp: valid_records_def prefix_raw_trieKey_iff split_trieKey_of)
  finally show ?thesis by (simp add: keys_with_prefix_def)
qed

lemma KeysStartingWith_sorted:
  assumes "builds E" and "New E R = Returns s" and "valid_records R"
    and "ascending E (trie s)"
  shows "sorted (map (\<lambda>k. k @ KV_SEPARATOR) (KeysStartingWith E s p))"
proof -
  let ?ms = "Trie_PredictiveSearch E (trie s) p"
  let ?f = "\<lambda>x. fst (splitTrieKey x) @ KV_SEPARATOR"
  have shape: "\<exists>k v. x = k @ CHR 0xFF # v \<and> CHR 0xFF \<notin> set k \<and> fst (splitTrieKey x) = k"
    if "x \<in> set ?ms" for x
  proof -
    from that obtain r where r: "r \<in> set R" "x = trieKey_of r"
      by (auto simp: search_set [OF assms(1,2)])
    with assms(3) have "CHR 0xFF \<notin> set (Key r)" by (simp add: valid_records_def)
    with r(2) show ?thesis
      by (simp add: trieKey_of_def buildTrieKey_def KV_SEPARATOR_def splitTrieKey_first_sep)
  qed
  have "sorted ?ms" using assms(4) by (simp add: ascending_def)
  then have "sorted (map ?f ?ms)"
  proof (rule sorted_map_on)
    fix x y assume xy: "x \<in> set ?ms" "y \<in> set ?ms" "x \<le> y"
    from shape [OF xy(1)] obtain k v
      where v: "x = k @ CHR 0xFF # v" "CHR 0xFF \<notin> set k" "fst (splitTrieKey x) = k"
      by blast
    from shape [OF xy(2)] obtain l w
      where w: "y = l @ CHR 0xFF # w" "CHR 0xFF \<notin> set l" "fst (splitTrieKey y) = l"
      by blast
    from xy(3) v(1) w(1) have "k @ CHR 0xFF # v \<le> l @ CHR 0xFF # w" by simp
    with v(2) w(2) have "k @ [CHR 0xFF] \<le> l @ [CHR 0xFF]"
      by (rule key_order_of_trieKey_order)
    then show "?f x \<le> ?f y"
      using v(3) w(3) by (simp add: KV_SEPARATOR_def)
  qed
  then show ?thesis by (simp add: KeysStartingWith_eq comp_def)
qed

lemma KeysStartingWith_lower:
  assumes "builds E" and "New E R = Returns s" and "valid_records R" and "CHR 0xFF \<notin> set p"
  shows "mset (keys_with_prefix (remdups R) p) \<subseteq># mset (KeysStartingWith E s p)"
  unfolding keys_with_prefix_def KeysStartingWith_eq
  using assms(3,4)
  by (intro decode_lower [OF assms(1,2,3)])
    (auto simp: valid_records_def prefix_raw_trieKey_iff split_trieKey_of)

lemma KeysStartingWith_upper:
  assumes "builds E" and "New E R = Returns s" and "valid_records R" and "CHR 0xFF \<notin> set p"
    and "distinct R \<or> at_most_pushed E (trie s) (map trieKey_of R)"
  shows "mset (KeysStartingWith E s p) \<subseteq># mset (keys_with_prefix R p)"
  unfolding keys_with_prefix_def KeysStartingWith_eq
  using assms(3,4)
  by (intro decode_upper [OF assms(1,2,3,5)])
    (auto simp: valid_records_def prefix_raw_trieKey_iff split_trieKey_of)

text \<open>
  C5, as amended. Let the store be built by \<^verbatim>\<open>New\<close> from the records \<open>R\<close>, whose keys are
  free of the byte 0xFF, and let the prefix \<open>p\<close> be free of it.
  \<^item> \<^verbatim>\<open>KeysStartingWith\<close> keeps the order of the library: the returned keys are the
    keys of the trie keys that the library yields for the query \<open>p\<close>, in that order.
  \<^item> The keys returned are those of the records of \<open>R\<close> whose key starts with \<open>p\<close>,
    each record giving its key at least once.
  \<^item> When no record occurs twice in \<open>R\<close>, or the library yields no key more often than
    it was pushed, no record gives its key more often than it occurs in \<open>R\<close>; so a
    record that occurs once gives its key once.
  \<^item> When no record occurs twice in \<open>R\<close>, the result has exactly one occurrence of the
    key of each such record.
  \<^item> When the library yields its matches in ascending order, the keys ascend as
    trie-key prefixes, that is each key followed by the byte 0xFF: a key comes after
    every longer key that starts with it.
\<close>

theorem KeysStartingWith_correct:
  assumes "builds E" and "New E R = Returns s" and "valid_records R" and "CHR 0xFF \<notin> set p"
  shows "KeysStartingWith E s p =
           map (\<lambda>x. fst (splitTrieKey x)) (Trie_PredictiveSearch E (trie s) p) \<and>
         set (KeysStartingWith E s p) = set (keys_with_prefix R p) \<and>
         mset (keys_with_prefix (remdups R) p) \<subseteq># mset (KeysStartingWith E s p) \<and>
         (distinct R \<or> at_most_pushed E (trie s) (map trieKey_of R) \<longrightarrow>
            mset (KeysStartingWith E s p) \<subseteq># mset (keys_with_prefix R p)) \<and>
         (distinct R \<longrightarrow> mset (KeysStartingWith E s p) = mset (keys_with_prefix R p)) \<and>
         (ascending E (trie s) \<longrightarrow> sorted (map (\<lambda>k. k @ KV_SEPARATOR) (KeysStartingWith E s p)))"
  using KeysStartingWith_eq [of E s p] KeysStartingWith_set [OF assms]
    KeysStartingWith_lower [OF assms] KeysStartingWith_upper [OF assms]
    KeysStartingWith_mset [OF assms] KeysStartingWith_sorted [OF assms(1,2,3)] by blast

lemma sorted_B:
  "sorted [''abc'' @ CHR 0xFF # ''def'', ''ac'' @ CHR 0xFF # ''acorn'', ''a'' @ CHR 0xFF # ''apple'',
      ''foo'' @ CHR 0xFF # ''bar'', ''foo'' @ CHR 0xFF # ''baz'']"
  by simp

theorem KeysStartingWith_correct_witness:
  "builds (list_engine False) \<and>
   New (list_engine False) scenario_B =
     Returns \<lparr>trie = [''abc'' @ CHR 0xFF # ''def'', ''ac'' @ CHR 0xFF # ''acorn'',
       ''a'' @ CHR 0xFF # ''apple'', ''foo'' @ CHR 0xFF # ''bar'', ''foo'' @ CHR 0xFF # ''baz'']\<rparr> \<and>
   valid_records scenario_B \<and> CHR 0xFF \<notin> set ''a'' \<and> distinct scenario_B \<and>
   at_most_pushed (list_engine False) [''abc'' @ CHR 0xFF # ''def'', ''ac'' @ CHR 0xFF # ''acorn'',
       ''a'' @ CHR 0xFF # ''apple'', ''foo'' @ CHR 0xFF # ''bar'', ''foo'' @ CHR 0xFF # ''baz''] (map trieKey_of scenario_B) \<and>
   ascending (list_engine False) [''abc'' @ CHR 0xFF # ''def'', ''ac'' @ CHR 0xFF # ''acorn'',
       ''a'' @ CHR 0xFF # ''apple'', ''foo'' @ CHR 0xFF # ''bar'', ''foo'' @ CHR 0xFF # ''baz''] \<and>
   keys_with_prefix scenario_B ''a'' = [''abc'', ''a'', ''ac''] \<and>
   KeysStartingWith (list_engine False) \<lparr>trie = [''abc'' @ CHR 0xFF # ''def'', ''ac'' @ CHR 0xFF # ''acorn'',
       ''a'' @ CHR 0xFF # ''apple'', ''foo'' @ CHR 0xFF # ''bar'', ''foo'' @ CHR 0xFF # ''baz'']\<rparr> ''a'' = [''abc'', ''ac'', ''a''] \<and>
   mset (KeysStartingWith (list_engine False) \<lparr>trie = [''abc'' @ CHR 0xFF # ''def'', ''ac'' @ CHR 0xFF # ''acorn'',
       ''a'' @ CHR 0xFF # ''apple'', ''foo'' @ CHR 0xFF # ''bar'', ''foo'' @ CHR 0xFF # ''baz'']\<rparr> ''a'')
     = mset [''abc'', ''a'', ''ac''] \<and>
   sorted (map (\<lambda>k. k @ KV_SEPARATOR) (KeysStartingWith (list_engine False) \<lparr>trie = [''abc'' @ CHR 0xFF # ''def'', ''ac'' @ CHR 0xFF # ''acorn'',
       ''a'' @ CHR 0xFF # ''apple'', ''foo'' @ CHR 0xFF # ''bar'', ''foo'' @ CHR 0xFF # ''baz'']\<rparr> ''a''))"
proof -
  let ?E = "list_engine False"
  let ?t = "[''abc'' @ CHR 0xFF # ''def'', ''ac'' @ CHR 0xFF # ''acorn'',
       ''a'' @ CHR 0xFF # ''apple'', ''foo'' @ CHR 0xFF # ''bar'', ''foo'' @ CHR 0xFF # ''baz'']"
  let ?s = "\<lparr>trie = ?t\<rparr>"
  have b: "builds ?E" by (rule builds_list_engine)
  have n: "New ?E scenario_B = Returns ?s" by (simp add: eval_defs scenario_B_def)
  have v: "valid_records scenario_B" by (simp add: valid_records_def scenario_B_def)
  have k: "CHR 0xFF \<notin> set ''a''" by simp
  have d: "distinct scenario_B" by (simp add: scenario_B_def)
  have m: "at_most_pushed ?E ?t (map trieKey_of scenario_B)"
    using at_most_pushed_list_engine [of False "map trieKey_of scenario_B"]
    by (simp add: scenario_B_def trieKey_of_def buildTrieKey_def KV_SEPARATOR_def)
  have a: "ascending ?E ?t" using sorted_B by (rule ascending_list_engine)
  have r: "keys_with_prefix scenario_B ''a'' = [''abc'', ''a'', ''ac'']"
    by (simp add: keys_with_prefix_def scenario_B_def)
  have p: "map (\<lambda>x. fst (splitTrieKey x)) (Trie_PredictiveSearch ?E ?t ''a'') = [''abc'', ''ac'', ''a'']"
    by (simp add: list_engine_def splitTrieKey_takeWhile)
  have ts: "trie ?s = ?t" by simp
  note c = KeysStartingWith_correct [OF b n v k, unfolded ts]
  from c p have o: "KeysStartingWith ?E ?s ''a'' = [''abc'', ''ac'', ''a'']"
    by simp
  from c d have "mset (KeysStartingWith ?E ?s ''a'') = mset (keys_with_prefix scenario_B ''a'')"
    by blast
  with r have e: "mset (KeysStartingWith ?E ?s ''a'') = mset [''abc'', ''a'', ''ac'']"
    by simp
  from c a have "sorted (map (\<lambda>k. k @ KV_SEPARATOR) (KeysStartingWith ?E ?s ''a''))"
    by blast
  with b n v k d m a r o e show ?thesis by blast
qed

text \<open>
  C5 as stated fails in three ways, shown on the records of \<^verbatim>\<open>TestTrieKeysStartingWith\<close>
  with the library sorting in ascending order. The keys for the prefix \<open>a\<close> come as
  \<open>abc, ac, a\<close>, which does not ascend. For the prefix \<open>foo\<close> followed by the byte 0xFF
  the key \<open>foo\<close> is returned twice, and it does not start with that prefix. And a record
  given twice is returned once when the library keeps each key once. With the byte 0xFF
  in a key of \<open>R\<close> it fails as well: for the record with key \<open>a\<close>, 0xFF, \<open>b\<close> the key
  \<open>a\<close> is returned, which no record has.
\<close>

theorem KeysStartingWith_counterexample:
  "New (list_engine False) scenario_B =
     Returns \<lparr>trie = [''abc'' @ CHR 0xFF # ''def'', ''ac'' @ CHR 0xFF # ''acorn'',
       ''a'' @ CHR 0xFF # ''apple'', ''foo'' @ CHR 0xFF # ''bar'', ''foo'' @ CHR 0xFF # ''baz'']\<rparr> \<and>
   KeysStartingWith (list_engine False)
      \<lparr>trie = [''abc'' @ CHR 0xFF # ''def'', ''ac'' @ CHR 0xFF # ''acorn'',
       ''a'' @ CHR 0xFF # ''apple'', ''foo'' @ CHR 0xFF # ''bar'', ''foo'' @ CHR 0xFF # ''baz'']\<rparr> ''a''
     = [''abc'', ''ac'', ''a''] \<and>
   \<not> sorted [''abc'', ''ac'', ''a''] \<and>
   KeysStartingWith (list_engine False)
      \<lparr>trie = [''abc'' @ CHR 0xFF # ''def'', ''ac'' @ CHR 0xFF # ''acorn'',
       ''a'' @ CHR 0xFF # ''apple'', ''foo'' @ CHR 0xFF # ''bar'', ''foo'' @ CHR 0xFF # ''baz'']\<rparr>
      (''foo'' @ [CHR 0xFF])
     = [''foo'', ''foo''] \<and>
   keys_with_prefix scenario_B (''foo'' @ [CHR 0xFF]) = [] \<and>
   New (list_engine True) twice = Returns \<lparr>trie = [''foo'' @ CHR 0xFF # ''bar'']\<rparr> \<and>
   KeysStartingWith (list_engine True) \<lparr>trie = [''foo'' @ CHR 0xFF # ''bar'']\<rparr> ''f'' = [''foo''] \<and>
   keys_with_prefix twice ''f'' = [''foo'', ''foo''] \<and>
   New (list_engine False) sentinel_key =
     Returns \<lparr>trie = [''a'' @ CHR 0xFF # ''b'' @ CHR 0xFF # ''v'']\<rparr> \<and>
   KeysStartingWith (list_engine False) \<lparr>trie = [''a'' @ CHR 0xFF # ''b'' @ CHR 0xFF # ''v'']\<rparr> ''a''
     = [''a''] \<and>
   keys_with_prefix sentinel_key ''a'' = [''a'' @ CHR 0xFF # ''b'']"
  by (simp add: eval_defs scenario_B_def twice_def sentinel_key_def)

section \<open>Records\<close>

lemma Records_set:
  assumes "builds E" and "New E R = Returns s" and "valid_records R"
  shows "set (Records E s) = set R"
proof -
  have "set (Records E s) =
      (\<lambda>r. \<lparr>Key = fst (splitTrieKey (trieKey_of r)), Value = snd (splitTrieKey (trieKey_of r))\<rparr>) ` set R"
    by (simp add: Records_eq search_set [OF assms(1,2)] image_image)
  also have "\<dots> = set R"
    using assms(3) by (auto simp: valid_records_def record_of_trieKey image_iff)
  finally show ?thesis .
qed

lemma Records_mset:
  assumes "builds E" and "New E R = Returns s" and "valid_records R" and "distinct R"
  shows "mset (Records E s) = mset R"
proof -
  let ?g = "\<lambda>x. \<lparr>Key = fst (splitTrieKey x), Value = snd (splitTrieKey x)\<rparr>"
  have "mset (Records E s) = image_mset ?g (mset (Trie_PredictiveSearch E (trie s) []))"
    by (simp add: Records_eq)
  also have "\<dots> = mset (map (\<lambda>r. ?g (trieKey_of r)) R)"
    by (simp add: search_mset [OF assms] multiset.map_comp comp_def)
  also have "map (\<lambda>r. ?g (trieKey_of r)) R = map (\<lambda>r. r) R"
    using assms(3) by (intro map_cong) (auto simp: valid_records_def record_of_trieKey)
  finally show ?thesis by simp
qed

lemma Records_sorted:
  assumes "builds E" and "New E R = Returns s" and "valid_records R" and "ascending E (trie s)"
  shows "sorted (map trieKey_of (Records E s))"
proof -
  let ?ms = "Trie_PredictiveSearch E (trie s) []"
  have "map trieKey_of (Records E s) = map (\<lambda>x. x) ?ms"
    unfolding Records_eq map_map
  proof (intro map_cong refl)
    fix x assume "x \<in> set ?ms"
    then obtain r where r: "r \<in> set R" "x = trieKey_of r"
      by (auto simp: search_set [OF assms(1,2)])
    with assms(3) have "CHR 0xFF \<notin> set (Key r)" by (simp add: valid_records_def)
    with r(2) show "(trieKey_of \<circ> (\<lambda>x. \<lparr>Key = fst (splitTrieKey x), Value = snd (splitTrieKey x)\<rparr>)) x = x"
      by (simp add: record_of_trieKey)
  qed
  moreover have "sorted ?ms" using assms(4) by (simp add: ascending_def)
  ultimately show ?thesis by simp
qed

lemma Records_order:
  assumes "builds E" and "New E R = Returns s" and "valid_records R"
  shows "map trieKey_of (Records E s) = Trie_PredictiveSearch E (trie s) []"
proof -
  let ?ms = "Trie_PredictiveSearch E (trie s) []"
  have "map trieKey_of (Records E s) = map (\<lambda>x. x) ?ms"
    unfolding Records_eq map_map
  proof (intro map_cong refl)
    fix x assume "x \<in> set ?ms"
    then obtain r where r: "r \<in> set R" "x = trieKey_of r"
      by (auto simp: search_set [OF assms(1,2)])
    with assms(3) have "CHR 0xFF \<notin> set (Key r)" by (simp add: valid_records_def)
    with r(2) show "(trieKey_of \<circ> (\<lambda>x. \<lparr>Key = fst (splitTrieKey x), Value = snd (splitTrieKey x)\<rparr>)) x = x"
      by (simp add: record_of_trieKey)
  qed
  then show ?thesis by simp
qed

lemma Records_lower:
  assumes "builds E" and "New E R = Returns s" and "valid_records R"
  shows "mset (remdups R) \<subseteq># mset (Records E s)"
proof -
  have "mset (map (\<lambda>r. r) (filter (\<lambda>r. True) (remdups R))) \<subseteq># mset (Records E s)"
    unfolding Records_eq using assms(3)
    by (intro decode_lower [OF assms(1,2,3)]) (auto simp: valid_records_def record_of_trieKey)
  then show ?thesis by simp
qed

lemma Records_upper:
  assumes "builds E" and "New E R = Returns s" and "valid_records R"
    and "distinct R \<or> at_most_pushed E (trie s) (map trieKey_of R)"
  shows "mset (Records E s) \<subseteq># mset R"
proof -
  have "mset (Records E s) \<subseteq># mset (map (\<lambda>r. r) (filter (\<lambda>r. True) R))"
    unfolding Records_eq using assms(3)
    by (intro decode_upper [OF assms(1,2,3,4)]) (auto simp: valid_records_def record_of_trieKey)
  then show ?thesis by simp
qed

text \<open>
  C6, as amended. Let the store be built by \<^verbatim>\<open>New\<close> from the records \<open>R\<close>, whose keys are
  free of the byte 0xFF.
  \<^item> \<^verbatim>\<open>Records\<close> keeps the order of the library: the trie keys of the returned
    records are the sequence that the library yields for the empty query.
  \<^item> The records returned are those of \<open>R\<close>, each at least once.
  \<^item> When no record occurs twice in \<open>R\<close>, or the library yields no key more often than
    it was pushed, no record is returned more often than it occurs in \<open>R\<close>; so a record
    that occurs once is returned once.
  \<^item> When no record occurs twice in \<open>R\<close>, the result has exactly the pairs of \<open>R\<close>, in
    the same number.
  \<^item> When the library yields its keys in ascending order, the records ascend by their
    trie key (key, byte 0xFF, value), which is not the order of the pairs (key, value).
\<close>

theorem Records_correct:
  assumes "builds E" and "New E R = Returns s" and "valid_records R"
  shows "map trieKey_of (Records E s) = Trie_PredictiveSearch E (trie s) [] \<and>
         set (Records E s) = set R \<and>
         mset (remdups R) \<subseteq># mset (Records E s) \<and>
         (distinct R \<or> at_most_pushed E (trie s) (map trieKey_of R) \<longrightarrow>
            mset (Records E s) \<subseteq># mset R) \<and>
         (distinct R \<longrightarrow> mset (Records E s) = mset R) \<and>
         (ascending E (trie s) \<longrightarrow> sorted (map trieKey_of (Records E s)))"
  using Records_order [OF assms] Records_set [OF assms] Records_lower [OF assms]
    Records_upper [OF assms] Records_mset [OF assms] Records_sorted [OF assms] by blast

theorem Records_correct_witness:
  "builds (list_engine False) \<and>
   New (list_engine False) scenario_B =
     Returns \<lparr>trie = [''abc'' @ CHR 0xFF # ''def'', ''ac'' @ CHR 0xFF # ''acorn'',
       ''a'' @ CHR 0xFF # ''apple'', ''foo'' @ CHR 0xFF # ''bar'', ''foo'' @ CHR 0xFF # ''baz'']\<rparr> \<and>
   valid_records scenario_B \<and> distinct scenario_B \<and>
   at_most_pushed (list_engine False) [''abc'' @ CHR 0xFF # ''def'', ''ac'' @ CHR 0xFF # ''acorn'',
       ''a'' @ CHR 0xFF # ''apple'', ''foo'' @ CHR 0xFF # ''bar'', ''foo'' @ CHR 0xFF # ''baz''] (map trieKey_of scenario_B) \<and>
   ascending (list_engine False) [''abc'' @ CHR 0xFF # ''def'', ''ac'' @ CHR 0xFF # ''acorn'',
       ''a'' @ CHR 0xFF # ''apple'', ''foo'' @ CHR 0xFF # ''bar'', ''foo'' @ CHR 0xFF # ''baz''] \<and>
   map trieKey_of (Records (list_engine False) \<lparr>trie = [''abc'' @ CHR 0xFF # ''def'', ''ac'' @ CHR 0xFF # ''acorn'',
       ''a'' @ CHR 0xFF # ''apple'', ''foo'' @ CHR 0xFF # ''bar'', ''foo'' @ CHR 0xFF # ''baz'']\<rparr>) = [''abc'' @ CHR 0xFF # ''def'', ''ac'' @ CHR 0xFF # ''acorn'',
       ''a'' @ CHR 0xFF # ''apple'', ''foo'' @ CHR 0xFF # ''bar'', ''foo'' @ CHR 0xFF # ''baz''] \<and>
   mset (Records (list_engine False) \<lparr>trie = [''abc'' @ CHR 0xFF # ''def'', ''ac'' @ CHR 0xFF # ''acorn'',
       ''a'' @ CHR 0xFF # ''apple'', ''foo'' @ CHR 0xFF # ''bar'', ''foo'' @ CHR 0xFF # ''baz'']\<rparr>) = mset scenario_B \<and>
   sorted (map trieKey_of (Records (list_engine False) \<lparr>trie = [''abc'' @ CHR 0xFF # ''def'', ''ac'' @ CHR 0xFF # ''acorn'',
       ''a'' @ CHR 0xFF # ''apple'', ''foo'' @ CHR 0xFF # ''bar'', ''foo'' @ CHR 0xFF # ''baz'']\<rparr>))"
proof -
  let ?E = "list_engine False"
  let ?t = "[''abc'' @ CHR 0xFF # ''def'', ''ac'' @ CHR 0xFF # ''acorn'',
       ''a'' @ CHR 0xFF # ''apple'', ''foo'' @ CHR 0xFF # ''bar'', ''foo'' @ CHR 0xFF # ''baz'']"
  let ?s = "\<lparr>trie = ?t\<rparr>"
  have b: "builds ?E" by (rule builds_list_engine)
  have n: "New ?E scenario_B = Returns ?s" by (simp add: eval_defs scenario_B_def)
  have v: "valid_records scenario_B" by (simp add: valid_records_def scenario_B_def)
  have d: "distinct scenario_B" by (simp add: scenario_B_def)
  have m: "at_most_pushed ?E ?t (map trieKey_of scenario_B)"
    using at_most_pushed_list_engine [of False "map trieKey_of scenario_B"]
    by (simp add: scenario_B_def trieKey_of_def buildTrieKey_def KV_SEPARATOR_def)
  have a: "ascending ?E ?t" using sorted_B by (rule ascending_list_engine)
  have p: "Trie_PredictiveSearch ?E ?t [] = ?t"
    by (simp add: list_engine_def)
  have ts: "trie ?s = ?t" by simp
  note c = Records_correct [OF b n v, unfolded ts]
  from c p have o: "map trieKey_of (Records ?E ?s) = ?t"
    by simp
  from c d have e: "mset (Records ?E ?s) = mset scenario_B"
    by blast
  from c a have "sorted (map trieKey_of (Records ?E ?s))"
    by blast
  with b n v d m a o e show ?thesis by blast
qed

text \<open>
  C6 as stated fails on the records of \<^verbatim>\<open>TestTrieKeysStartingWith\<close> with the library
  sorting in ascending order: the records come with the keys \<open>abc, ac, a, foo, foo\<close>, and
  the pairs (key, value) do not ascend. And a record given twice is returned once when
  the library keeps each key once. With the byte 0xFF in a key of \<open>R\<close> it fails as well:
  the record with key \<open>a\<close>, 0xFF, \<open>b\<close> and value \<open>v\<close> comes back with the key \<open>a\<close>.
\<close>

theorem Records_counterexample:
  "New (list_engine False) scenario_B =
     Returns \<lparr>trie = [''abc'' @ CHR 0xFF # ''def'', ''ac'' @ CHR 0xFF # ''acorn'',
       ''a'' @ CHR 0xFF # ''apple'', ''foo'' @ CHR 0xFF # ''bar'', ''foo'' @ CHR 0xFF # ''baz'']\<rparr> \<and>
   Records (list_engine False)
      \<lparr>trie = [''abc'' @ CHR 0xFF # ''def'', ''ac'' @ CHR 0xFF # ''acorn'',
       ''a'' @ CHR 0xFF # ''apple'', ''foo'' @ CHR 0xFF # ''bar'', ''foo'' @ CHR 0xFF # ''baz'']\<rparr>
     = [\<lparr>Key = ''abc'', Value = ''def''\<rparr>, \<lparr>Key = ''ac'', Value = ''acorn''\<rparr>,
        \<lparr>Key = ''a'', Value = ''apple''\<rparr>, \<lparr>Key = ''foo'', Value = ''bar''\<rparr>,
        \<lparr>Key = ''foo'', Value = ''baz''\<rparr>] \<and>
   \<not> sorted (map pair_of
       [\<lparr>Key = ''abc'', Value = ''def''\<rparr>, \<lparr>Key = ''ac'', Value = ''acorn''\<rparr>,
        \<lparr>Key = ''a'', Value = ''apple''\<rparr>, \<lparr>Key = ''foo'', Value = ''bar''\<rparr>,
        \<lparr>Key = ''foo'', Value = ''baz''\<rparr>]) \<and>
   New (list_engine True) twice = Returns \<lparr>trie = [''foo'' @ CHR 0xFF # ''bar'']\<rparr> \<and>
   Records (list_engine True) \<lparr>trie = [''foo'' @ CHR 0xFF # ''bar'']\<rparr> = [\<lparr>Key = ''foo'', Value = ''bar''\<rparr>] \<and>
   length twice = 2 \<and>
   New (list_engine False) sentinel_key =
     Returns \<lparr>trie = [''a'' @ CHR 0xFF # ''b'' @ CHR 0xFF # ''v'']\<rparr> \<and>
   Records (list_engine False) \<lparr>trie = [''a'' @ CHR 0xFF # ''b'' @ CHR 0xFF # ''v'']\<rparr>
     = [\<lparr>Key = ''a'', Value = ''b'' @ CHR 0xFF # ''v''\<rparr>] \<and>
   sentinel_key = [\<lparr>Key = ''a'' @ CHR 0xFF # ''b'', Value = ''v''\<rparr>]"
  by (simp add: eval_defs scenario_B_def twice_def sentinel_key_def)

section \<open>Keys with the byte 0xFF\<close>

lemma Records_unvalidated:
  assumes "stores E tr (map trieKey_of R)"
    and "\<lparr>Key = k1 @ CHR 0xFF # k2, Value = v\<rparr> \<in> set R" and "CHR 0xFF \<notin> set k1"
  shows "\<lparr>Key = k1, Value = k2 @ CHR 0xFF # v\<rparr> \<in> set (Records E \<lparr>trie = tr\<rparr>)"
proof -
  let ?x = "k1 @ CHR 0xFF # k2 @ CHR 0xFF # v"
  have "trieKey_of \<lparr>Key = k1 @ CHR 0xFF # k2, Value = v\<rparr> = ?x"
    by (simp add: trieKey_of_def buildTrieKey_def KV_SEPARATOR_def)
  with assms(2) have "?x \<in> set (map trieKey_of R)"
    by (metis image_eqI set_map)
  with assms(1) have "?x \<in> set (Trie_PredictiveSearch E tr [])"
    by (simp add: stores_def)
  moreover have "splitTrieKey ?x = (k1, k2 @ CHR 0xFF # v)"
    using assms(3) by (rule splitTrieKey_first_sep)
  ultimately show ?thesis
    by (force simp: Records_eq image_iff)
qed

text \<open>
  C2, as amended. \<^verbatim>\<open>New\<close> does not look at the keys and has no error to return: for
  every list of records, with the byte 0xFF in a key or not, it returns a store whenever
  \<^verbatim>\<open>Build\<close> of the library returns. A record whose key has the byte 0xFF is stored as
  it is, and \<^verbatim>\<open>Records()\<close> gives it back with the key cut at its first byte 0xFF, the
  rest of the key going in front of the value.
\<close>

theorem New_does_not_validate:
  assumes "builds E" and "Trie_Build E (NewTrie E) (map trieKey_of R) = Returns tr"
  shows "New E R = Returns \<lparr>trie = tr\<rparr> \<and>
         (\<forall>k1 k2 v. \<lparr>Key = k1 @ CHR 0xFF # k2, Value = v\<rparr> \<in> set R \<and> CHR 0xFF \<notin> set k1 \<longrightarrow>
            \<lparr>Key = k1, Value = k2 @ CHR 0xFF # v\<rparr> \<in> set (Records E \<lparr>trie = tr\<rparr>))"
proof -
  from assms have "stores E tr (map trieKey_of R)"
    by (auto simp: builds_def)
  then show ?thesis
    using assms(2) by (simp add: New_eq Records_unvalidated)
qed

theorem New_does_not_validate_witness:
  "builds (list_engine False) \<and>
   Trie_Build (list_engine False) (NewTrie (list_engine False)) (map trieKey_of sentinel_key) =
     Returns [''a'' @ CHR 0xFF # ''b'' @ CHR 0xFF # ''v''] \<and>
   New (list_engine False) sentinel_key = Returns \<lparr>trie = [''a'' @ CHR 0xFF # ''b'' @ CHR 0xFF # ''v'']\<rparr> \<and>
   \<lparr>Key = ''a'', Value = ''b'' @ CHR 0xFF # ''v''\<rparr>
     \<in> set (Records (list_engine False) \<lparr>trie = [''a'' @ CHR 0xFF # ''b'' @ CHR 0xFF # ''v'']\<rparr>)"
proof -
  let ?E = "list_engine False"
  let ?t = "[''a'' @ CHR 0xFF # ''b'' @ CHR 0xFF # ''v'']"
  have b: "builds ?E" by (rule builds_list_engine)
  have t: "Trie_Build ?E (NewTrie ?E) (map trieKey_of sentinel_key) = Returns ?t"
    by (simp add: list_engine_def sentinel_key_def trieKey_of_def buildTrieKey_def KV_SEPARATOR_def)
  have m: "\<lparr>Key = ''a'' @ CHR 0xFF # ''b'', Value = ''v''\<rparr> \<in> set sentinel_key \<and> CHR 0xFF \<notin> set ''a''"
    by (simp add: sentinel_key_def)
  from New_does_not_validate [OF b t] m
  have "New ?E sentinel_key = Returns \<lparr>trie = ?t\<rparr>"
    and "\<lparr>Key = ''a'', Value = ''b'' @ CHR 0xFF # ''v''\<rparr> \<in> set (Records ?E \<lparr>trie = ?t\<rparr>)"
    by blast+
  with b t show ?thesis by blast
qed

text \<open>
  C2 as stated fails: for the record with key \<open>a\<close>, 0xFF, \<open>b\<close> and value \<open>v\<close>,
  \<^verbatim>\<open>New\<close> returns a store, which later gives the record back with the key \<open>a\<close>.
\<close>

theorem New_sentinel_key_counterexample:
  "New (list_engine False) [\<lparr>Key = ''a'' @ CHR 0xFF # ''b'', Value = ''v''\<rparr>] =
     Returns \<lparr>trie = [''a'' @ CHR 0xFF # ''b'' @ CHR 0xFF # ''v'']\<rparr> \<and>
   Records (list_engine False) \<lparr>trie = [''a'' @ CHR 0xFF # ''b'' @ CHR 0xFF # ''v'']\<rparr> =
     [\<lparr>Key = ''a'', Value = ''b'' @ CHR 0xFF # ''v''\<rparr>]"
  by (simp add: eval_defs)

section \<open>Panics of the library\<close>

text \<open>
  \<^verbatim>\<open>Save\<close> and \<^verbatim>\<open>NewFromFile\<close> recover: whatever the library does, they return, with
  the panic as the error.
\<close>

lemma Save_never_panics:
  "Save E s path fs =
     (case Trie_Save E (trie s) path fs of
        Returns fs' \<Rightarrow> Returns (None, fs') | Panics p \<Rightarrow> Returns (Some p, fs))"
  by (simp add: Save_def recover_err_def split: go_result.splits)

lemma NewFromFile_never_panics:
  "NewFromFile E path fs =
     (case Trie_Mmap E (NewTrie E) path fs of
        Returns t' \<Rightarrow> Returns (\<lparr>trie = t'\<rparr>, None)
      | Panics p \<Rightarrow> Returns (\<lparr>trie = NewTrie E\<rparr>, Some p))"
  by (simp add: NewFromFile_def recover_err_def split: go_result.splits)

lemma Save_broken:
  "Save (broken_engine msg) s path fs = Returns (Some msg, fs)"
  by (simp add: Save_never_panics broken_engine_def)

lemma NewFromFile_broken:
  "NewFromFile (broken_engine msg) path fs = Returns (\<lparr>trie = ()\<rparr>, Some msg)"
  by (simp add: NewFromFile_never_panics broken_engine_def)

text \<open>
  C8 fails for \<^verbatim>\<open>New\<close>, which has no deferred function: a panic of \<^verbatim>\<open>Build\<close> is the
  outcome of \<^verbatim>\<open>New\<close>.
\<close>

theorem New_panics:
  "Trie_Build E (NewTrie E) (map trieKey_of R) = Panics p \<Longrightarrow> New E R = Panics p"
  by (simp add: New_eq)

theorem New_panics_witness:
  "Trie_Build (broken_engine ''marisa: build failed'') (NewTrie (broken_engine ''marisa: build failed''))
      (map trieKey_of test_load_save) = Panics ''marisa: build failed'' \<and>
   New (broken_engine ''marisa: build failed'') test_load_save = Panics ''marisa: build failed''"
proof -
  let ?E = "broken_engine ''marisa: build failed''"
  have h: "Trie_Build ?E (NewTrie ?E) (map trieKey_of test_load_save) = Panics ''marisa: build failed''"
    by (simp add: broken_engine_def)
  from New_panics [OF h] h show ?thesis by blast
qed

section \<open>Save, then load\<close>

lemma Save_Returns_None:
  "Save E s path fs = Returns (None, fs') \<Longrightarrow> Trie_Save E (trie s) path fs = Returns fs'"
  by (auto simp: Save_never_panics split: go_result.splits)

text \<open>
  C9. Let the library load what it has saved. When \<^verbatim>\<open>Save\<close> of a store (built by \<^verbatim>\<open>New\<close>
  or not) to a path returns no error, \<^verbatim>\<open>NewFromFile\<close> of that path returns a store and no
  error, and \<^verbatim>\<open>Exists\<close>, \<^verbatim>\<open>Find\<close>, \<^verbatim>\<open>KeysStartingWith\<close> and \<^verbatim>\<open>Records\<close> return on it
  what they return on the saved store, for every input.
\<close>

theorem Save_NewFromFile:
  assumes "persists E" and "Save E s path fs = Returns (None, fs')"
  shows "\<exists>s'. NewFromFile E path fs' = Returns (s', None) \<and>
           (\<forall>k. Exists E s' k = Exists E s k) \<and>
           (\<forall>k. Find E s' k = Find E s k) \<and>
           (\<forall>p. KeysStartingWith E s' p = KeysStartingWith E s p) \<and>
           Records E s' = Records E s"
proof -
  from assms(2) have "Trie_Save E (trie s) path fs = Returns fs'"
    by (rule Save_Returns_None)
  with assms(1) obtain tr' where m: "Trie_Mmap E (NewTrie E) path fs' = Returns tr'"
    and q: "\<And>q. Trie_PredictiveSearch E tr' q = Trie_PredictiveSearch E (trie s) q"
    unfolding persists_def by blast
  have "NewFromFile E path fs' = Returns (\<lparr>trie = tr'\<rparr>, None)"
    using m by (simp add: NewFromFile_never_panics)
  moreover have "Exists E \<lparr>trie = tr'\<rparr> k = Exists E s k" for k
    by (simp add: Exists_eq q)
  moreover have "Find E \<lparr>trie = tr'\<rparr> k = Find E s k" for k
    by (simp add: Find_eq q)
  moreover have "KeysStartingWith E \<lparr>trie = tr'\<rparr> p = KeysStartingWith E s p" for p
    by (simp add: KeysStartingWith_eq q)
  moreover have "Records E \<lparr>trie = tr'\<rparr> = Records E s"
    by (simp add: Records_eq q)
  ultimately show ?thesis by blast
qed

theorem Save_NewFromFile_witness:
  "persists (list_engine False) \<and>
   New (list_engine False) test_load_save = Returns \<lparr>trie = [''abc'' @ CHR 0xFF # ''def'']\<rparr> \<and>
   Save (list_engine False) \<lparr>trie = [''abc'' @ CHR 0xFF # ''def'']\<rparr> ''testTrie'' Map.empty =
     Returns (None, [''testTrie'' \<mapsto> [''abc'' @ CHR 0xFF # ''def'']]) \<and>
   NewFromFile (list_engine False) ''testTrie'' [''testTrie'' \<mapsto> [''abc'' @ CHR 0xFF # ''def'']] =
     Returns (\<lparr>trie = [''abc'' @ CHR 0xFF # ''def'']\<rparr>, None) \<and>
   Find (list_engine False) \<lparr>trie = [''abc'' @ CHR 0xFF # ''def'']\<rparr> ''abc'' = [''def'']"
proof -
  let ?E = "list_engine False"
  let ?s = "\<lparr>trie = [''abc'' @ CHR 0xFF # ''def'']\<rparr>"
  let ?fs = "[''testTrie'' \<mapsto> [''abc'' @ CHR 0xFF # ''def'']]"
  have p: "persists ?E" by (rule persists_list_engine)
  have n: "New ?E test_load_save = Returns ?s" by (simp add: eval_defs test_load_save_def)
  have s: "Save ?E ?s ''testTrie'' Map.empty = Returns (None, ?fs)"
    by (simp add: Save_never_panics list_engine_def)
  from Save_NewFromFile [OF p s] obtain s'
    where l: "NewFromFile ?E ''testTrie'' ?fs = Returns (s', None)"
      and f: "Find ?E s' ''abc'' = Find ?E ?s ''abc''"
    by blast
  have "NewFromFile ?E ''testTrie'' ?fs = Returns (?s, None)"
    by (simp add: NewFromFile_never_panics list_engine_def)
  moreover have "Find ?E ?s ''abc'' = [''def'']" by (simp add: eval_defs)
  ultimately show ?thesis using p n s by blast
qed

end
